theory Spec2Isabelle
  imports Main "HOL-Library.Sublist" "HOL-Library.Log_Nat"
begin

section \<open>Manifest text and regular-expression replacement\<close>

text \<open>
  A manifest is the text of an M3U8 playlist, modelled as a \<open>string\<close>: the list of its
  characters. Isabelle characters are 8-bit, so the texts covered are those whose code
  units are below 256; among these the ECMAScript line terminators are LF and CR
  (U+2028 and U+2029 lie outside the modelled alphabet).
\<close>

definition isLineTerminator :: "char \<Rightarrow> bool" where
  "isLineTerminator c = (c = CHR 0x0A \<or> c = CHR 0x0D)"

text \<open>
  A regular expression is modelled by what it does at one position of the subject: given
  the character before the position (\<open>None\<close> at the start of the input) and the rest of
  the input from the position on, it yields the text of capture group 1 and the length of
  the whole match, or \<open>None\<close> when the expression does not match there.
\<close>

type_synonym matcher = "char option \<Rightarrow> string \<Rightarrow> (string \<times> nat) option"

text \<open>
  \<open>subject.replace(regex, replacement)\<close> for a regex with the \<open>g\<close> flag: the subject is scanned
  from the left; at the first position where the expression matches, the match is replaced
  and the scan resumes behind it; an empty match is replaced and the scan moves on by one
  character; a position without a match keeps its character.
\<close>

fun replace_all :: "matcher \<Rightarrow> (string \<Rightarrow> string) \<Rightarrow> char option \<Rightarrow> string \<Rightarrow> string" where
  "replace_all m rep prev [] = (case m prev [] of None \<Rightarrow> [] | Some (g, n) \<Rightarrow> rep g)"
| "replace_all m rep prev (c # cs) =
     (case m prev (c # cs) of
        None \<Rightarrow> c # replace_all m rep (Some c) cs
      | Some (g, n) \<Rightarrow>
          if n = 0 then rep g @ c # replace_all m rep (Some c) cs
          else rep g @ replace_all m rep (Some (last (take n (c # cs)))) (drop (n - 1) cs))"

text \<open>The assertions \<open>^\<close> and \<open>$\<close> under the \<open>m\<close> flag.\<close>

definition line_start :: "char option \<Rightarrow> bool" where
  "line_start prev = (case prev of None \<Rightarrow> True | Some c \<Rightarrow> isLineTerminator c)"

definition line_end :: "string \<Rightarrow> bool" where
  "line_end s = (case s of [] \<Rightarrow> True | c # _ \<Rightarrow> isLineTerminator c)"

text \<open>The alternatives of the negative lookahead \<open>(?!https?:\/\/|#)\<close>.\<close>

definition absolute_or_comment :: "string \<Rightarrow> bool" where
  "absolute_or_comment s =
     (prefix ''http://'' s \<or> prefix ''https://'' s \<or> prefix ''#'' s)"

text \<open>
  \<open>(.+EXT)$\<close>: the greedy \<open>.+\<close> first takes every character up to the next line
  terminator and gives them back one at a time, down to one character, until the literal
  extension and the end of the line follow. The result is the length of the match.
\<close>

fun dot_plus_ext :: "string \<Rightarrow> string \<Rightarrow> nat \<Rightarrow> nat option" where
  "dot_plus_ext ext s 0 = None"
| "dot_plus_ext ext s (Suc k) =
     (if prefix ext (drop (Suc k) s) \<and> line_end (drop (Suc k + length ext) s)
      then Some (Suc k + length ext)
      else dot_plus_ext ext s k)"

text \<open>\<open>/^(?!https?:\/\/|#)(.+EXT)$/gm\<close> at one position.\<close>

definition relative_line :: "string \<Rightarrow> matcher" where
  "relative_line ext prev s =
     (if line_start prev \<and> \<not> absolute_or_comment s
      then map_option (\<lambda>n. (take n s, n))
             (dot_plus_ext ext s (length (takeWhile (\<lambda>c. \<not> isLineTerminator c) s)))
      else None)"

text \<open>
  \<open>([^"]+\.mp4)"\<close> behind \<open>URI="\<close>: the greedy \<open>[^"]+\<close> takes every character up to the
  next double quote (line terminators included) and backs off until \<open>.mp4"\<close> follows.
  The result is the length of capture group 1.
\<close>

definition dquote :: char where
  "dquote = CHR 0x22"

fun nonquote_plus_mp4 :: "string \<Rightarrow> nat \<Rightarrow> nat option" where
  "nonquote_plus_mp4 r 0 = None"
| "nonquote_plus_mp4 r (Suc k) =
     (if prefix (''.mp4'' @ [dquote]) (drop (Suc k) r)
      then Some (Suc k + 4)
      else nonquote_plus_mp4 r k)"

text \<open>\<open>/URI="([^"]+\.mp4)"/g\<close> at one position.\<close>

definition uri_attribute :: matcher where
  "uri_attribute prev s =
     (if prefix (''URI='' @ [dquote]) s
      then map_option (\<lambda>n. (take n (drop 5 s), 5 + n + 1))
             (nonquote_plus_mp4 (drop 5 s) (length (takeWhile (\<lambda>c. c \<noteq> dquote) (drop 5 s))))
      else None)"

subsection \<open>The manifest rewrite of \<open>app.get('/api/video/:videoId')\<close>\<close>

definition upstream_videos :: string where
  "upstream_videos = ''https://barbarian.men/macaw45/videos/''"

definition segments_absolute :: "string \<Rightarrow> string" where
  "segments_absolute s =
     replace_all (relative_line ''.ts'') (\<lambda>g. upstream_videos @ g) None s"

definition uri_proxied :: "string \<Rightarrow> string" where
  "uri_proxied s =
     replace_all uri_attribute (\<lambda>g. ''URI='' @ [dquote] @ ''/api/mp4/'' @ g @ [dquote]) None s"

definition mp4_proxied :: "string \<Rightarrow> string" where
  "mp4_proxied s =
     replace_all (relative_line ''.mp4'') (\<lambda>g. ''/api/mp4/'' @ g) None s"

definition modifiedContent :: "string \<Rightarrow> string" where
  "modifiedContent m3u8Content = mp4_proxied (uri_proxied (segments_absolute m3u8Content))"

section \<open>Upstream fetches\<close>

text \<open>
  \<open>await fetch(url)\<close> either rejects (a transport failure, raised as an exception) or
  resolves to a response with a status, headers (looked up by lower-case name) and a
  body. \<open>response.ok\<close> holds for the statuses 200 to 299.
\<close>

record 'b response =
  status :: nat
  headers :: "string \<rightharpoonup> string"
  body :: 'b

datatype 'b fetched = Rejected | Resolved "'b response"

definition ok :: "'b response \<Rightarrow> bool" where
  "ok r = (200 \<le> status r \<and> status r \<le> 299)"

text \<open>A string or \<open>null\<close> used as a condition: \<open>null\<close> and the empty string are falsy.\<close>

definition truthy :: "string option \<Rightarrow> bool" where
  "truthy v = (case v of None \<Rightarrow> False | Some s \<Rightarrow> s \<noteq> [])"

section \<open>Duration of a video: \<open>getVideoDuration\<close>\<close>

subsection \<open>Numbers\<close>

text \<open>
  The numbers of \<open>getVideoDuration\<close> are binary64 values that are never negative: a
  non-negative rational that binary64 represents, positive infinity, or NaN. \<open>binary64\<close>
  rounds a non-negative rational to the nearest representable value, ties to the even
  significand; beyond the largest finite value it yields infinity.
\<close>

datatype number = NaN | PosInfinity | Num rat

definition pow2 :: "int \<Rightarrow> rat" where
  "pow2 e = (if 0 \<le> e then 2 ^ nat e else 1 / 2 ^ nat (- e))"

definition floor_log2 :: "rat \<Rightarrow> int" where
  "floor_log2 q =
     (if 1 \<le> q then int (floorlog 2 (nat \<lfloor>q\<rfloor>)) - 1
      else - int (floorlog 2 (nat (\<lceil>1 / q\<rceil> - 1))))"

definition round_half_even :: "rat \<Rightarrow> int" where
  "round_half_even q =
     (let f = \<lfloor>q\<rfloor>; d = q - of_int f
      in if d < 1 / 2 then f else if 1 / 2 < d then f + 1 else if even f then f else f + 1)"

definition binary64 :: "rat \<Rightarrow> number" where
  "binary64 q =
     (if q = 0 then Num 0
      else let e = max (- 1074) (floor_log2 q - 52);
               v = of_int (round_half_even (q / pow2 e)) * pow2 e
           in if 2 ^ 1024 \<le> v then PosInfinity else Num v)"

text \<open>\<open>a + b\<close> on these numbers.\<close>

fun js_add :: "number \<Rightarrow> number \<Rightarrow> number" where
  "js_add NaN _ = NaN"
| "js_add _ NaN = NaN"
| "js_add PosInfinity _ = PosInfinity"
| "js_add _ PosInfinity = PosInfinity"
| "js_add (Num a) (Num b) = binary64 (a + b)"

text \<open>\<open>Math.round\<close>: the nearest integer, a tie going up.\<close>

fun Math_round :: "number \<Rightarrow> number" where
  "Math_round NaN = NaN"
| "Math_round PosInfinity = PosInfinity"
| "Math_round (Num q) = Num (of_int \<lfloor>q + 1 / 2\<rfloor>)"

text \<open>
  \<open>parseFloat\<close> on a text of digits and dots (all that capture group 1 of the duration
  expression can hold): the longest prefix that is a decimal literal is converted, and
  the result is NaN when there is none (the text starts with a dot that no digit follows).
\<close>

definition is_digit :: "char \<Rightarrow> bool" where
  "is_digit c = (c \<in> set ''0123456789'')"

definition digit_value :: "char \<Rightarrow> nat" where
  "digit_value c = of_char c - 48"

definition decimal :: "string \<Rightarrow> nat" where
  "decimal ds = foldl (\<lambda>n c. 10 * n + digit_value c) 0 ds"

definition parseFloat :: "string \<Rightarrow> number" where
  "parseFloat s =
     (let ip = takeWhile is_digit s;
          r = dropWhile is_digit s;
          fp = (case r of [] \<Rightarrow> [] | c # cs \<Rightarrow> if c = CHR ''.'' then takeWhile is_digit cs else [])
      in if ip = [] \<and> fp = [] then NaN
         else binary64 (of_nat (decimal ip) + of_nat (decimal fp) / 10 ^ length fp))"

subsection \<open>The duration directives\<close>

text \<open>\<open>text.split('\n')\<close>, and more generally the pieces of a text between separators.\<close>

fun split_when :: "(char \<Rightarrow> bool) \<Rightarrow> string \<Rightarrow> string list" where
  "split_when sep [] = [[]]"
| "split_when sep (c # cs) =
     (if sep c then [] # split_when sep cs
      else (case split_when sep cs of [] \<Rightarrow> [[c]] | l # ls \<Rightarrow> (c # l) # ls))"

definition split_newline :: "string \<Rightarrow> string list" where
  "split_newline s = split_when (\<lambda>c. c = CHR 0x0A) s"

text \<open>
  \<open>line.match(/#EXTINF:([0-9.]+),/)\<close>: the expression is tried at every position of the
  line, from the left; the greedy \<open>[0-9.]+\<close> takes all digits and dots and backs off until
  a comma follows. The result is the text of capture group 1 of the first match.
\<close>

fun digits_dots_comma :: "string \<Rightarrow> nat \<Rightarrow> nat option" where
  "digits_dots_comma r 0 = None"
| "digits_dots_comma r (Suc k) =
     (if prefix '','' (drop (Suc k) r) then Some (Suc k) else digits_dots_comma r k)"

definition extinf_at :: "string \<Rightarrow> string option" where
  "extinf_at s =
     (if prefix ''#EXTINF:'' s
      then map_option (\<lambda>n. take n (drop 8 s))
             (digits_dots_comma (drop 8 s)
                (length (takeWhile (\<lambda>c. is_digit c \<or> c = CHR ''.'') (drop 8 s))))
      else None)"

fun extinf_match :: "string \<Rightarrow> string option" where
  "extinf_match [] = None"
| "extinf_match (c # cs) =
     (case extinf_at (c # cs) of Some g \<Rightarrow> Some g | None \<Rightarrow> extinf_match cs)"

text \<open>The loop over the lines, threading \<open>totalDuration\<close>.\<close>

fun totalDuration :: "string list \<Rightarrow> number \<Rightarrow> number" where
  "totalDuration [] acc = acc"
| "totalDuration (line # lines) acc =
     totalDuration lines
       (if prefix ''#EXTINF:'' line
        then (case extinf_match line of
                Some g \<Rightarrow> js_add acc (parseFloat g)
              | None \<Rightarrow> acc)
        else acc)"

text \<open>
  \<open>getVideoDuration(videoId)\<close>. The playlist of a video is fetched from
  \<open>https://barbarian.men/macaw45/videos/v<videoId>.m3u8\<close>; \<open>m3u8\<close> gives the outcome of
  that fetch for each video id, the body being the result of \<open>response.text()\<close>
  (\<open>None\<close> when reading it fails). The result \<open>None\<close> is \<open>null\<close>.
\<close>

definition getVideoDuration :: "(string \<Rightarrow> string option fetched) \<Rightarrow> string \<Rightarrow> number option" where
  "getVideoDuration m3u8 videoId =
     (case m3u8 videoId of
        Rejected \<Rightarrow> None
      | Resolved m3u8Response \<Rightarrow>
          if \<not> ok m3u8Response then None
          else (case body m3u8Response of
                  None \<Rightarrow> None
                | Some m3u8Content \<Rightarrow>
                    Some (Math_round (totalDuration (split_newline m3u8Content) (Num 0)))))"

section \<open>Metadata sync: \<open>syncMetadata\<close>\<close>


record video_record =
  vodid :: string
  title :: string
  description :: string
  date :: string
  duration :: "number option"
  lastUpdated :: string

text \<open>
  The metadata file holds JSON. \<open>JSON.stringify\<close> writes a duration that is NaN or infinite
  as \<open>null\<close>, so a record of the file has a finite duration or none. A missing file is the
  empty object.
\<close>

record stored_record =
  stored_vodid :: string
  stored_title :: string
  stored_description :: string
  stored_date :: string
  stored_duration :: "rat option"
  stored_lastUpdated :: string

definition stringified :: "video_record \<Rightarrow> stored_record" where
  "stringified r =
     \<lparr>stored_vodid = vodid r,
      stored_title = title r,
      stored_description = description r,
      stored_date = date r,
      stored_duration = (case duration r of Some (Num q) \<Rightarrow> Some q | _ \<Rightarrow> None),
      stored_lastUpdated = lastUpdated r\<rparr>"

definition parsed :: "stored_record \<Rightarrow> video_record" where
  "parsed r =
     \<lparr>vodid = stored_vodid r,
      title = stored_title r,
      description = stored_description r,
      date = stored_date r,
      duration = map_option Num (stored_duration r),
      lastUpdated = stored_lastUpdated r\<rparr>"

text \<open>
  \<open>loadMetadata()\<close> on a file: the file parsed, or the empty object when \<open>fs.readFile\<close> or
  \<open>JSON.parse\<close> raises (\<open>readable\<close> is false). And the file that \<open>saveMetadata(metadata)\<close> writes.
\<close>

definition loadMetadata :: "bool \<Rightarrow> (string \<rightharpoonup> stored_record) \<Rightarrow> (string \<rightharpoonup> video_record)" where
  "loadMetadata readable disk = (if readable then map_option parsed \<circ> disk else Map.empty)"

definition saveMetadata :: "(string \<rightharpoonup> video_record) \<Rightarrow> (string \<rightharpoonup> stored_record)" where
  "saveMetadata metadata = map_option stringified \<circ> metadata"














section \<open>The container proxy: \<open>app.get('/api/mp4/:filename')\<close>\<close>

text \<open>
  What a handler answers: the status, the headers it set, and what it sent (a text, or the
  upstream body piped through).
\<close>

datatype 'b sent = Text string | Piped 'b

record 'b reply =
  code :: nat
  reply_headers :: "string \<rightharpoonup> string"
  sent :: "'b sent"

text \<open>The headers of the middleware that runs before every handler.\<close>

definition cors :: "string \<rightharpoonup> string" where
  "cors = [''Access-Control-Allow-Origin'' \<mapsto> ''*'',
           ''Access-Control-Allow-Headers'' \<mapsto> ''Origin, X-Requested-With, Content-Type, Accept'']"

text \<open>\<open>if (v) res.set(name, v)\<close> for a header value \<open>v\<close> that is a string or \<open>null\<close>.\<close>

definition set_if_present :: "string \<Rightarrow> string option \<Rightarrow> (string \<rightharpoonup> string) \<Rightarrow> (string \<rightharpoonup> string)" where
  "set_if_present name v hs = (if truthy v then hs(name \<mapsto> the v) else hs)"

text \<open>
  The handler, given the upstream (the outcome of \<open>fetch(url, { headers })\<close> for a URL and
  request headers), the file name of the route and the request's \<open>Range\<close> header.
\<close>

definition mp4 ::
  "(string \<Rightarrow> (string \<rightharpoonup> string) \<Rightarrow> 'b fetched) \<Rightarrow> string \<Rightarrow> string option \<Rightarrow> 'b reply" where
  "mp4 fetch filename range_header =
     (let url = upstream_videos @ filename;
          hdrs = set_if_present ''Range'' range_header Map.empty
      in case fetch url hdrs of
           Rejected \<Rightarrow> \<lparr>code = 500, reply_headers = cors, sent = Text ''Error fetching MP4''\<rparr>
         | Resolved response \<Rightarrow>
             if \<not> ok response
             then \<lparr>code = 404, reply_headers = cors, sent = Text ''MP4 not found''\<rparr>
             else \<lparr>code = status response,
                   reply_headers =
                     (set_if_present ''Accept-Ranges'' (headers response ''accept-ranges'')
                        (set_if_present ''Content-Range'' (headers response ''content-range'') cors))
                     (''Content-Type'' \<mapsto> ''video/mp4'',
                      ''Access-Control-Allow-Origin'' \<mapsto> ''*'',
                      ''Cache-Control'' \<mapsto> ''public, max-age=3600''),
                   sent = Piped (body response)\<rparr>)"

section \<open>Chat replay: \<open>app.get('/api/chat/:videoId/:startTime/:endTime')\<close>\<close>

text \<open>
  A message of the upstream is an object with an optional numeric \<open>timestamp\<close>; the rest of
  it is passed through. The handler adds \<open>video_timestamp\<close>.
\<close>

record 'p upstream_message =
  timestamp :: "rat option"
  payload :: 'p

record 'p chat_message = "'p upstream_message" +
  video_timestamp :: int

definition stamp :: "int \<Rightarrow> 'p upstream_message \<Rightarrow> 'p chat_message" where
  "stamp t msg = \<lparr>timestamp = timestamp msg, payload = payload msg, video_timestamp = t\<rparr>"

text \<open>
  The variables of the loop: \<open>allMessages\<close>, and the seconds whose shard was requested from
  the upstream so far.
\<close>

record 'p chat_state =
  allMessages :: "'p chat_message list"
  requested :: "int list"

text \<open>
  The body of the loop for second \<open>t\<close>. \<open>comments t\<close> is the outcome of fetching
  \<open>comments/<videoId>/<t>.json\<close>, the body being the result of \<open>response.json()\<close> (\<open>None\<close>
  when it raises, or when the value is no array of objects so that stamping it raises). A
  rejected fetch and a raised exception are caught inside the loop.
\<close>

definition chat_second :: "(int \<Rightarrow> 'p upstream_message list option fetched) \<Rightarrow> int \<Rightarrow> 'p chat_state \<Rightarrow> 'p chat_state" where
  "chat_second comments t st =
     (let st' = st\<lparr>requested := requested st @ [t]\<rparr>
      in case comments t of
           Rejected \<Rightarrow> st'
         | Resolved response \<Rightarrow>
             if ok response
             then (case body response of
                     None \<Rightarrow> st'
                   | Some messages \<Rightarrow> st'\<lparr>allMessages := allMessages st' @ map (stamp t) messages\<rparr>)
             else st')"

text \<open>
  The loop counter \<open>t\<close> and the bound \<open>end\<close> are what \<open>parseInt\<close> returns, and what \<open>t++\<close> makes of
  it: NaN, an infinity, or an integer that binary64 represents.
\<close>

datatype counter = NotANumber | MinusInfinity | Whole int | PlusInfinity

text \<open>\<open>t <= end\<close>: false when either side is NaN.\<close>

fun js_le :: "counter \<Rightarrow> counter \<Rightarrow> bool" where
  "js_le NotANumber _ = False"
| "js_le _ NotANumber = False"
| "js_le MinusInfinity _ = True"
| "js_le _ PlusInfinity = True"
| "js_le PlusInfinity _ = False"
| "js_le _ MinusInfinity = False"
| "js_le (Whole a) (Whole b) = (a \<le> b)"

text \<open>
  \<open>t++\<close>: the binary64 sum of \<open>t\<close> and 1, rounded to the nearest representable value, ties to
  the even significand. Up to \<open>2 ^ 53\<close> in magnitude the sum is exact; from there on the sum
  can round back to \<open>t\<close>. An infinity stays what it is.
\<close>

definition increment :: "counter \<Rightarrow> counter" where
  "increment t =
     (case t of
        Whole n \<Rightarrow>
          (case binary64 (of_int \<bar>n + 1\<bar>) of
             Num v \<Rightarrow> Whole (sgn (n + 1) * \<lfloor>v\<rfloor>)
           | PosInfinity \<Rightarrow> if 0 < n + 1 then PlusInfinity else MinusInfinity
           | NaN \<Rightarrow> NotANumber)
      | _ \<Rightarrow> t)"

text \<open>
  \<open>for (let t = start; t <= end; t++)\<close>. The loop need not end: \<open>None\<close> is a loop that runs
  forever, so that the handler never answers. With \<open>t\<close> an infinity the condition holds again
  after \<open>t++\<close>, whatever the body does.
\<close>

partial_function (option) chat_loop ::
  "(int \<Rightarrow> 'p upstream_message list option fetched) \<Rightarrow> counter \<Rightarrow> counter \<Rightarrow> 'p chat_state \<Rightarrow> 'p chat_state option" where
  "chat_loop comments t stop st =
     (if js_le t stop
      then (case t of
              Whole n \<Rightarrow> chat_loop comments (increment t) stop (chat_second comments n st)
            | _ \<Rightarrow> None)
      else Some st)"

text \<open>The comparator of the sort; \<open>a.timestamp || 0\<close> is 0 for a message without timestamp.\<close>

definition timestamp_or_zero :: "'p chat_message \<Rightarrow> rat" where
  "timestamp_or_zero a = (case timestamp a of None \<Rightarrow> 0 | Some x \<Rightarrow> x)"

definition compare_messages :: "'p chat_message \<Rightarrow> 'p chat_message \<Rightarrow> rat" where
  "compare_messages a b =
     (if video_timestamp a \<noteq> video_timestamp b
      then of_int (video_timestamp a - video_timestamp b)
      else timestamp_or_zero a - timestamp_or_zero b)"

text \<open>
  \<open>Array.prototype.sort\<close> with a comparator: a stable sort (ECMAScript 2019), here by
  insertion: an element moves behind exactly those that the comparator puts before it.
\<close>

fun insert_by :: "('a \<Rightarrow> 'a \<Rightarrow> rat) \<Rightarrow> 'a \<Rightarrow> 'a list \<Rightarrow> 'a list" where
  "insert_by cmp x [] = [x]"
| "insert_by cmp x (y # ys) = (if cmp x y \<le> 0 then x # y # ys else y # insert_by cmp x ys)"

definition js_sort :: "('a \<Rightarrow> 'a \<Rightarrow> rat) \<Rightarrow> 'a list \<Rightarrow> 'a list" where
  "js_sort cmp xs = foldr (insert_by cmp) xs []"

text \<open>
  The handler, given the results of \<open>parseInt\<close> on the two route parameters: the seconds
  requested from the upstream, the status and the array sent; \<open>None\<close> when the loop does not
  end. Nothing outside the loop's own handler raises, so an answer is always sent by
  \<open>res.json(allMessages)\<close>.
\<close>

record 'p chat_result =
  shards :: "int list"
  statusCode :: nat
  json :: "'p chat_message list"

definition collected :: "(int \<Rightarrow> 'p upstream_message list option fetched) \<Rightarrow> counter \<Rightarrow> counter \<Rightarrow> 'p chat_state option" where
  "collected comments start stop = chat_loop comments start stop \<lparr>allMessages = [], requested = []\<rparr>"

definition chat :: "(int \<Rightarrow> 'p upstream_message list option fetched) \<Rightarrow> counter \<Rightarrow> counter \<Rightarrow> 'p chat_result option" where
  "chat comments start stop =
     map_option
       (\<lambda>st. \<lparr>shards = requested st,
              statusCode = 200,
              json = js_sort compare_messages (allMessages st)\<rparr>)
       (collected comments start stop)"

section \<open>Notions used in the properties\<close>

text \<open>What the shard of second \<open>t\<close> contributes to a chat range: nothing unless it was fetched with
  a 2xx status and parsed.\<close>

definition shard_messages :: "'p upstream_message list option fetched \<Rightarrow> int \<Rightarrow> 'p chat_message list" where
  "shard_messages outcome t =
     (case outcome of
        Rejected \<Rightarrow> []
      | Resolved response \<Rightarrow>
          if ok response then (case body response of None \<Rightarrow> [] | Some messages \<Rightarrow> map (stamp t) messages)
          else [])"



subsection \<open>Lines and scans of a manifest\<close>

text \<open>A text with no line terminator, and the lines of a text as the \<open>m\<close> flag sees them.\<close>

definition single_line :: "string \<Rightarrow> bool" where
  "single_line s = list_all (\<lambda>c. \<not> isLineTerminator c) s"

definition jslines :: "string \<Rightarrow> string list" where
  "jslines s = split_when isLineTerminator s"

text \<open>A function applied to every line of a text, the terminators kept.\<close>

fun map_lines_from :: "(string \<Rightarrow> string) \<Rightarrow> string \<Rightarrow> string \<Rightarrow> string" where
  "map_lines_from f cur [] = f (rev cur)"
| "map_lines_from f cur (c # cs) =
     (if isLineTerminator c then f (rev cur) @ c # map_lines_from f [] cs
      else map_lines_from f (c # cur) cs)"

definition map_lines :: "(string \<Rightarrow> string) \<Rightarrow> string \<Rightarrow> string" where
  "map_lines f s = map_lines_from f [] s"

text \<open>What an anchored expression \<open>^(?!https?:\/\/|#)(.+ext)$\<close> with replacement \<open>pre$1\<close>
  does to one line.\<close>

definition rewritten_line :: "string \<Rightarrow> string \<Rightarrow> string \<Rightarrow> string" where
  "rewritten_line ext pre l =
     (if \<not> absolute_or_comment l \<and> suffix ext l \<and> length ext < length l then pre @ l else l)"

text \<open>The opening of a URI attribute, and the attribute after the rewrite.\<close>

definition uri_open :: string where
  "uri_open = ''URI='' @ [dquote]"

definition proxied_uri :: "string \<Rightarrow> string" where
  "proxied_uri g = ''URI='' @ [dquote] @ ''/api/mp4/'' @ g @ [dquote]"

text \<open>Texts without a double quote, and texts that are empty or start with one.\<close>

definition quote_free :: "string \<Rightarrow> bool" where
  "quote_free s = list_all (\<lambda>c. c \<noteq> dquote) s"

definition quote_next :: "string \<Rightarrow> bool" where
  "quote_next s = (case s of [] \<Rightarrow> True | c # _ \<Rightarrow> c = dquote)"

text \<open>A text after which a line starts, and the number of line terminators of a text.\<close>

definition bol :: "string \<Rightarrow> bool" where
  "bol s = (s = [] \<or> isLineTerminator (last s))"

definition nlt :: "string \<Rightarrow> nat" where
  "nlt s = length (filter isLineTerminator s)"

text \<open>The scan for URI attributes, stopped where a line \<open>v\<close> starts after a text \<open>u\<close>: \<open>u\<close> has become
  \<open>u'\<close>, and the scan has gone \<open>k\<close> characters into \<open>v\<close>, when an attribute opened in \<open>u\<close> closes
  there.\<close>

definition before_line :: "string \<Rightarrow> string \<Rightarrow> string \<Rightarrow> nat \<Rightarrow> bool" where
  "before_line u v u' k =
     (uri_proxied (u @ v) = u' @ take k v @ uri_proxied (drop k v) \<and> bol u' \<and> nlt u' = nlt u \<and>
      (k = 0 \<or> (k \<le> length v \<and> quote_free (take (k - 1) v) \<and>
                 suffix (''.mp4'' @ [dquote]) (u @ take k v))))"

text \<open>A text obtained from another by inserting characters, none of them a separator.\<close>

definition inserted :: "(char \<Rightarrow> bool) \<Rightarrow> string \<Rightarrow> string \<Rightarrow> bool" where
  "inserted sep x y = (subseq x y \<and> filter sep y = filter sep x)"

text \<open>Lines in which every \<open>URI="\<close> is followed by another double quote.\<close>

fun closed_attributes :: "string \<Rightarrow> bool" where
  "closed_attributes [] = True"
| "closed_attributes (c # cs) =
     ((\<not> prefix uri_open (c # cs) \<or> \<not> quote_free (drop 5 (c # cs))) \<and> closed_attributes cs)"

text \<open>A manifest with a segment line, a map attribute, a bare container line, an absolute line, a
  key attribute and a line with two attributes.\<close>

definition example_manifest :: string where
  "example_manifest =
     ''segment1.ts'' @ CHR 0x0A #
     ''#EXT-X-MAP:URI='' @ dquote # ''init.mp4'' @ dquote # CHR 0x0A #
     ''part0.mp4'' @ CHR 0x0A #
     ''https://cdn.example/seg2.ts'' @ CHR 0x0A #
     ''#EXT-X-KEY:METHOD=AES-128,URI='' @ dquote # ''key.bin'' @ dquote # CHR 0x0A #
     ''#EXT-X-PART:URI='' @ dquote # ''a.mp4'' @ dquote # '',URI='' @ dquote # ''b.mp4'' @ [dquote]"

section \<open>Properties of the duration\<close>

lemma floor_log2_values:
  "floor_log2 4 = 2" "floor_log2 8 = 3" "floor_log2 (5 / 2) = 1" "floor_log2 (21 / 2) = 3"
  by code_simp+

lemma round_half_even_values:
  "round_half_even (4 * 2 ^ 50) = 4 * 2 ^ 50" "round_half_even (8 * 2 ^ 49) = 8 * 2 ^ 49"
  "round_half_even (5 * 2 ^ 50) = 5 * 2 ^ 50" "round_half_even (21 * 2 ^ 48) = 21 * 2 ^ 48"
  by code_simp+

lemma binary64_values:
  "binary64 4 = Num 4" "binary64 8 = Num 8" "binary64 (5 / 2) = Num (5 / 2)"
  "binary64 (21 / 2) = Num (21 / 2)"
  using round_half_even_values by (simp_all add: binary64_def floor_log2_values pow2_def)

lemma parseFloat_values:
  "parseFloat ''4.0'' = Num 4" "parseFloat ''2.5'' = Num (5 / 2)" "parseFloat ''.'' = NaN"
  by (simp_all add: parseFloat_def is_digit_def decimal_def digit_value_def binary64_values)

lemma Math_round_zero: "Math_round (Num 0) = Num 0"
  by (simp add: floor_eq_iff)

lemma totalDuration_no_directive:
  "\<forall>line \<in> set lines. \<not> prefix ''#EXTINF:'' line \<Longrightarrow> totalDuration lines acc = acc"
  by (induction lines arbitrary: acc) simp_all

lemma getVideoDuration_None:
  "(getVideoDuration m3u8 videoId = None) =
     (case m3u8 videoId of Rejected \<Rightarrow> True | Resolved r \<Rightarrow> \<not> ok r \<or> body r = None)"
  by (simp add: getVideoDuration_def split: fetched.splits option.splits)

text \<open>
  Claim C3, amended. For every manifest that was fetched with a 2xx status and has no line
  starting with the duration directive \<open>#EXTINF:\<close>, \<open>getVideoDuration\<close> returns the number 0.
  It returns \<open>null\<close> exactly when the fetch is rejected, the status is not 2xx, or the body
  cannot be read.
\<close>

theorem duration_without_directives:
  "(m3u8 videoId = Resolved r \<and> ok r \<and> body r = Some m3u8Content \<and>
      (\<forall>line \<in> set (split_newline m3u8Content). \<not> prefix ''#EXTINF:'' line)
    \<longrightarrow> getVideoDuration m3u8 videoId = Some (Num 0)) \<and>
   ((getVideoDuration m3u8 videoId = None) =
      (case m3u8 videoId of Rejected \<Rightarrow> True | Resolved r \<Rightarrow> \<not> ok r \<or> body r = None))"
proof -
  have "getVideoDuration m3u8 videoId = Some (Num 0)"
    if "m3u8 videoId = Resolved r" "ok r" "body r = Some m3u8Content"
      "\<forall>line \<in> set (split_newline m3u8Content). \<not> prefix ''#EXTINF:'' line"
  proof -
    have "totalDuration (split_newline m3u8Content) (Num 0) = Num 0"
      using that(4) by (rule totalDuration_no_directive)
    then show ?thesis
      using that(1-3) by (simp add: getVideoDuration_def Math_round_zero del: Math_round.simps)
  qed
  then show ?thesis
    using getVideoDuration_None by blast
qed

text \<open>
  The claim as stated (a manifest without duration directives yields "absent") fails: the
  manifest \<open>#EXTM3U\<close> yields 0.
\<close>

theorem duration_without_directives_absent_counterexample:
  "getVideoDuration (\<lambda>v. Resolved \<lparr>status = 200, headers = Map.empty, body = Some ''#EXTM3U''\<rparr>) ''1''
     = Some (Num 0)"
  by (simp add: getVideoDuration_def ok_def split_newline_def Math_round_zero del: Math_round.simps)

theorem duration_without_directives_witness:
  "getVideoDuration (\<lambda>v. Resolved \<lparr>status = 200, headers = Map.empty,
       body = Some (''#EXTM3U'' @ [CHR 0x0A] @ ''seg0.ts'')\<rparr>) ''1'' = Some (Num 0) \<and>
   getVideoDuration (\<lambda>v. Rejected) ''1'' = None"
proof -
  let ?r = "\<lparr>status = 200, headers = Map.empty, body = Some (''#EXTM3U'' @ [CHR 0x0A] @ ''seg0.ts'')\<rparr>"
  have "ok ?r" by (simp add: ok_def)
  moreover have "\<forall>line \<in> set (split_newline (''#EXTM3U'' @ [CHR 0x0A] @ ''seg0.ts'')). \<not> prefix ''#EXTINF:'' line"
    by (simp add: split_newline_def)
  ultimately have "getVideoDuration (\<lambda>v. Resolved ?r) ''1'' = Some (Num 0)"
    using duration_without_directives [of "\<lambda>v. Resolved ?r" "''1''" ?r "''#EXTM3U'' @ [CHR 0x0A] @ ''seg0.ts''"]
    by simp
  moreover have "getVideoDuration (\<lambda>v. Rejected) ''1'' = None"
    using duration_without_directives [of "\<lambda>v. Rejected" "''1''" ?r "[]"] by simp
  ultimately show ?thesis by simp
qed

text \<open>The directives 4.0, 4.0 and 2.5 sum to 10.5, which \<open>Math.round\<close> takes to 11.\<close>

lemma duration_of_three_segments:
  "getVideoDuration (\<lambda>v. Resolved \<lparr>status = 200, headers = Map.empty,
       body = Some (''#EXTM3U'' @ [CHR 0x0A] @ ''#EXTINF:4.0,'' @ [CHR 0x0A] @ ''seg0.ts'' @ [CHR 0x0A] @
                    ''#EXTINF:4.0,'' @ [CHR 0x0A] @ ''seg1.ts'' @ [CHR 0x0A] @
                    ''#EXTINF:2.5,'' @ [CHR 0x0A] @ ''seg2.ts'' @ [CHR 0x0A])\<rparr>) ''1''
     = Some (Num 11)"
  by (simp add: getVideoDuration_def ok_def split_newline_def extinf_at_def is_digit_def
      parseFloat_values binary64_values)

text \<open>
  Claim C6 at a manifest with a malformed duration value. The value \<open>.\<close> of the second
  directive passes the expression \<open>[0-9.]+\<close>, \<open>parseFloat\<close> makes it NaN, and the sum and the
  result are NaN: the value is not skipped, and the 4.0 of the first directive is lost.
\<close>

theorem duration_poisoned_by_dot:
  "getVideoDuration (\<lambda>v. Resolved \<lparr>status = 200, headers = Map.empty,
       body = Some (''#EXTINF:4.0,'' @ [CHR 0x0A] @ ''#EXTINF:.,'' @ [CHR 0x0A])\<rparr>) ''1''
     = Some NaN"
  by (simp add: getVideoDuration_def ok_def split_newline_def extinf_at_def is_digit_def
      parseFloat_values binary64_values)

section \<open>Properties of the container proxy\<close>

text \<open>
  Claim C4, amended. When the upstream answers the container request with a 2xx status, the
  proxy answers with that status; a non-empty \<open>Content-Range\<close> of the upstream is sent
  unchanged, and without one the proxy sends none. (The request's \<open>Range\<close> header is what the
  upstream was asked with.)
\<close>

theorem mp4_range_passthrough:
  "fetch (upstream_videos @ filename) (set_if_present ''Range'' range_header Map.empty) = Resolved r
   \<Longrightarrow> ok r
   \<Longrightarrow> code (mp4 fetch filename range_header) = status r \<and>
       (\<forall>v. headers r ''content-range'' = Some v \<and> v \<noteq> [] \<longrightarrow>
            reply_headers (mp4 fetch filename range_header) ''Content-Range'' = Some v) \<and>
       (headers r ''content-range'' = None \<longrightarrow>
            reply_headers (mp4 fetch filename range_header) ''Content-Range'' = None)"
  by (simp add: mp4_def set_if_present_def truthy_def cors_def split: option.splits)

theorem mp4_range_passthrough_witness:
  "code (mp4 (\<lambda>url hs. if url = ''https://barbarian.men/macaw45/videos/v1.mp4'' \<and> hs ''Range'' = Some ''bytes=1000-1999''
                then Resolved \<lparr>status = 206, headers = [''content-range'' \<mapsto> ''bytes 1000-1999/50000''], body = ''bytes''\<rparr>
                else Rejected) ''v1.mp4'' (Some ''bytes=1000-1999'')) = 206 \<and>
   reply_headers (mp4 (\<lambda>url hs. if url = ''https://barbarian.men/macaw45/videos/v1.mp4'' \<and> hs ''Range'' = Some ''bytes=1000-1999''
                then Resolved \<lparr>status = 206, headers = [''content-range'' \<mapsto> ''bytes 1000-1999/50000''], body = ''bytes''\<rparr>
                else Rejected) ''v1.mp4'' (Some ''bytes=1000-1999'')) ''Content-Range'' = Some ''bytes 1000-1999/50000''"
proof -
  let ?r = "\<lparr>status = 206, headers = [''content-range'' \<mapsto> ''bytes 1000-1999/50000''], body = ''bytes''\<rparr>"
  let ?fetch = "\<lambda>url hs. if url = ''https://barbarian.men/macaw45/videos/v1.mp4'' \<and> hs ''Range'' = Some ''bytes=1000-1999''
                then Resolved ?r else Rejected"
  have 1: "?fetch (upstream_videos @ ''v1.mp4'') (set_if_present ''Range'' (Some ''bytes=1000-1999'') Map.empty) = Resolved ?r"
    by (simp add: upstream_videos_def set_if_present_def truthy_def)
  have 2: "ok ?r" by (simp add: ok_def)
  show ?thesis
    using mp4_range_passthrough [of ?fetch "''v1.mp4''" "Some ''bytes=1000-1999''" ?r] 1 2 by simp
qed

text \<open>
  The claim as stated (whenever the upstream supplies a \<open>Content-Range\<close> the proxy sends an
  identical one) fails for an empty header value, which the test
  \<open>if (response.headers.get('content-range'))\<close> takes for absent.
\<close>

theorem mp4_empty_content_range_counterexample:
  "ok \<lparr>status = 206, headers = [''content-range'' \<mapsto> ''''], body = ''bytes''\<rparr> \<and>
   headers \<lparr>status = 206, headers = [''content-range'' \<mapsto> ''''], body = ''bytes''\<rparr> ''content-range'' = Some '''' \<and>
   reply_headers (mp4 (\<lambda>url hs. Resolved \<lparr>status = 206, headers = [''content-range'' \<mapsto> ''''], body = ''bytes''\<rparr>)
                    ''v1.mp4'' (Some ''bytes=0-'')) ''Content-Range'' = None"
  by (simp add: mp4_def ok_def set_if_present_def truthy_def cors_def)

section \<open>Properties of the chat replay\<close>

subsection \<open>The loop counter\<close>

lemma round_half_even_of_int: "round_half_even (of_int m) = m"
  by (simp add: round_half_even_def)

lemma floor_log2_whole:
  assumes "1 \<le> n" "n < 2 ^ 53"
  shows "floor_log2 (of_int n) \<le> 52" "0 \<le> floor_log2 (of_int n)"
proof -
  have "nat n < 2 ^ 53"
    using assms by (simp add: nat_less_iff)
  then have "floorlog 2 (nat n) \<le> 53"
    by (simp add: floorlog_le_iff)
  moreover have "1 \<le> floorlog 2 (nat n)"
    using assms(1) floorlog_geI [of 2 1 "nat n"] by simp
  ultimately show "floor_log2 (of_int n) \<le> 52" "0 \<le> floor_log2 (of_int n)"
    using assms(1) by (simp_all add: floor_log2_def)
qed

lemma binary64_whole_below:
  assumes "1 \<le> n" "n < 2 ^ 53"
  shows "binary64 (of_int n) = Num (of_int n)"
proof -
  define e where "e = max (- 1074) (floor_log2 (of_int n) - 52)"
  have e: "e \<le> 0" "- 52 \<le> e"
    using floor_log2_whole [OF assms] by (simp_all add: e_def)
  define k where "k = nat (- e)"
  have p: "pow2 e = 1 / 2 ^ k"
    using e by (cases "e = 0") (simp_all add: pow2_def k_def)
  have "(of_int n :: rat) / pow2 e = of_int (n * 2 ^ k)"
    by (simp add: p)
  then have "round_half_even (of_int n / pow2 e) = n * 2 ^ k"
    by (simp only: round_half_even_of_int)
  then have v: "of_int (round_half_even (of_int n / pow2 e)) * pow2 e = (of_int n :: rat)"
    by (simp add: p)
  have "(of_int n :: rat) < 2 ^ 53"
    using assms(2) by (metis of_int_less_numeral_power_cancel_iff)
  also have "\<dots> \<le> 2 ^ 1024"
    by (rule power_increasing) simp_all
  finally have "\<not> (2 :: rat) ^ 1024 \<le> of_int n"
    by simp
  then show ?thesis
    using assms(1) v unfolding binary64_def Let_def e_def [symmetric] by simp
qed

lemma floor_log2_between:
  assumes "2 ^ k \<le> n" "n < 2 ^ Suc k"
  shows "floor_log2 (of_int n) = int k"
proof -
  have n: "1 \<le> n"
    using assms(1) by (smt (verit) one_le_power)
  have "2 ^ k \<le> nat n" "nat n < 2 ^ Suc k"
    using assms n by (simp_all add: le_nat_iff nat_less_iff)
  then have "Suc k \<le> floorlog 2 (nat n)" "floorlog 2 (nat n) \<le> Suc k"
    by (simp_all add: floorlog_le_iff floorlog_ge_SucI)
  then show ?thesis
    using n by (simp add: floor_log2_def)
qed

lemma floor_log2_limit:
  "floor_log2 9007199254740992 = 53" "floor_log2 9007199254740993 = 53"
  using floor_log2_between [of 53 9007199254740992] floor_log2_between [of 53 9007199254740993]
  by simp_all

lemma round_half_even_limit:
  "round_half_even 4503599627370496 = 4503599627370496"
  "round_half_even (9007199254740993 / 2) = 4503599627370496"
  by code_simp+

lemma binary64_limit:
  "binary64 9007199254740992 = Num 9007199254740992"
  "binary64 9007199254740993 = Num 9007199254740992"
  by (simp_all add: binary64_def floor_log2_limit round_half_even_limit pow2_def)

lemma binary64_whole:
  assumes "0 \<le> n" "n \<le> 2 ^ 53"
  shows "binary64 (of_int n) = Num (of_int n)"
proof -
  consider "n = 0" | "1 \<le> n" "n < 2 ^ 53" | "n = 9007199254740992"
    using assms by (cases "n = 0"; cases "n < 2 ^ 53") simp_all
  then show ?thesis
  proof cases
    case 1
    then show ?thesis by (simp add: binary64_def)
  next
    case 2
    then show ?thesis by (rule binary64_whole_below)
  next
    case 3
    then show ?thesis by (simp add: binary64_limit)
  qed
qed

lemma increment_exact:
  assumes "- (2 ^ 53) \<le> n + 1" "n + 1 \<le> 2 ^ 53"
  shows "increment (Whole n) = Whole (n + 1)"
proof -
  have b: "binary64 (of_int \<bar>n + 1\<bar>) = Num (of_int \<bar>n + 1\<bar>)"
    using assms by (intro binary64_whole) auto
  show ?thesis
    by (simp only: increment_def counter.case b number.case floor_of_int mult_sgn_abs)
qed

lemma increment_limit: "increment (Whole 9007199254740992) = Whole 9007199254740992"
  by (simp add: increment_def binary64_limit)

subsection \<open>The loop over the seconds\<close>

lemma chat_second_eq:
  "chat_second comments t st =
     \<lparr>allMessages = allMessages st @ shard_messages (comments t) t, requested = requested st @ [t]\<rparr>"
  by (simp add: chat_second_def shard_messages_def split: fetched.splits option.splits)

lemma chat_loop_done: "\<not> js_le t stop \<Longrightarrow> chat_loop comments t stop st = Some st"
  by (subst chat_loop.simps) simp

lemma chat_loop_step:
  assumes "s \<le> e" "- (2 ^ 53) \<le> s + 1" "s + 1 \<le> 2 ^ 53"
  shows "chat_loop comments (Whole s) (Whole e) st =
    chat_loop comments (Whole (s + 1)) (Whole e) (chat_second comments s st)"
  using assms by (subst chat_loop.simps) (simp add: increment_exact)

lemma chat_loop_range:
  assumes "- (2 ^ 53) \<le> s" "e < 2 ^ 53"
  shows "chat_loop comments (Whole s) (Whole e) st =
     Some \<lparr>allMessages = allMessages st @ concat (map (\<lambda>t. shard_messages (comments t) t) [s..e]),
           requested = requested st @ [s..e]\<rparr>"
  using assms(1)
proof (induction "nat (e + 1 - s)" arbitrary: s st)
  case 0
  then have "\<not> js_le (Whole s) (Whole e)"
    by simp
  then have "chat_loop comments (Whole s) (Whole e) st = Some st"
    by (rule chat_loop_done)
  then show ?case
    using 0 by simp
next
  case (Suc k)
  then have le: "s \<le> e"
    by simp
  then have range: "[s..e] = s # [s + 1..e]"
    by (simp add: upto_rec1)
  have "chat_loop comments (Whole s) (Whole e) st =
      chat_loop comments (Whole (s + 1)) (Whole e) (chat_second comments s st)"
    using le Suc.prems assms(2) by (intro chat_loop_step) simp_all
  also have "\<dots> = Some \<lparr>allMessages = allMessages (chat_second comments s st) @
                          concat (map (\<lambda>t. shard_messages (comments t) t) [s + 1..e]),
                     requested = requested (chat_second comments s st) @ [s + 1..e]\<rparr>"
    using Suc.hyps(2) Suc.prems by (intro Suc.hyps(1)) simp_all
  finally show ?case
    by (simp add: chat_second_eq range)
qed

lemma chat_loop_returned:
  assumes "chat_loop comments t stop st = Some y"
  shows "\<not> (js_le t stop \<and> increment t = t)"
proof (rule chat_loop.raw_induct
    [where P = "\<lambda>comments t stop st y. \<not> (js_le t stop \<and> increment t = t)", OF _ assms])
  fix loop :: "(int \<Rightarrow> 'a upstream_message list option fetched) \<Rightarrow> counter \<Rightarrow> counter \<Rightarrow>
      'a chat_state \<Rightarrow> 'a chat_state option"
    and comments t stop st y
  assume IH: "\<And>comments t stop st y. loop comments t stop st = Some y \<Longrightarrow>
      \<not> (js_le t stop \<and> increment t = t)"
    and body: "(if js_le t stop
      then case t of Whole n \<Rightarrow> loop comments (increment t) stop (chat_second comments n st)
           | _ \<Rightarrow> None
      else Some st) = Some y"
  show "\<not> (js_le t stop \<and> increment t = t)"
  proof
    assume stall: "js_le t stop \<and> increment t = t"
    then obtain n where "loop comments t stop (chat_second comments n st) = Some y"
      using body by (cases t) simp_all
    then have "\<not> (js_le t stop \<and> increment t = t)"
      by (rule IH)
    then show False
      using stall by simp
  qed
qed

lemma chat_loop_stalled:
  "js_le t stop \<Longrightarrow> increment t = t \<Longrightarrow> chat_loop comments t stop st = None"
  using chat_loop_returned [of comments t stop st] by (cases "chat_loop comments t stop st") auto

lemma collected_range:
  assumes "- (2 ^ 53) \<le> s" "e < 2 ^ 53"
  shows "collected comments (Whole s) (Whole e) =
     Some \<lparr>allMessages = concat (map (\<lambda>t. shard_messages (comments t) t) [s..e]), requested = [s..e]\<rparr>"
  using chat_loop_range [OF assms, of comments "\<lparr>allMessages = [], requested = []\<rparr>"]
  by (simp add: collected_def)

subsection \<open>The sort and the answer\<close>

lemma compare_messages_le:
  "compare_messages a b \<le> 0 \<longleftrightarrow>
     video_timestamp a < video_timestamp b \<or>
     (video_timestamp a = video_timestamp b \<and> timestamp_or_zero a \<le> timestamp_or_zero b)"
  by (auto simp: compare_messages_def)

lemma set_insert_by: "set (insert_by cmp x ys) = insert x (set ys)"
  by (induction ys) auto

lemma sorted_insert_by:
  assumes total: "\<And>a b. cmp a b \<le> 0 \<or> cmp b a \<le> 0"
    and trans: "\<And>a b c. cmp a b \<le> 0 \<Longrightarrow> cmp b c \<le> 0 \<Longrightarrow> cmp a c \<le> 0"
  shows "sorted_wrt (\<lambda>a b. cmp a b \<le> 0) ys \<Longrightarrow> sorted_wrt (\<lambda>a b. cmp a b \<le> 0) (insert_by cmp x ys)"
proof (induction ys)
  case Nil
  then show ?case by simp
next
  case (Cons y ys)
  show ?case
  proof (cases "cmp x y \<le> 0")
    case True
    then have "\<forall>z \<in> set ys. cmp x z \<le> 0"
      using Cons.prems trans by auto
    with True Cons.prems show ?thesis by simp
  next
    case False
    then have "cmp y x \<le> 0"
      using total [of x y] by simp
    with False Cons show ?thesis
      by (simp add: set_insert_by)
  qed
qed

lemma sorted_js_sort:
  assumes "\<And>a b. cmp a b \<le> 0 \<or> cmp b a \<le> 0"
    and "\<And>a b c. cmp a b \<le> 0 \<Longrightarrow> cmp b c \<le> 0 \<Longrightarrow> cmp a c \<le> 0"
  shows "sorted_wrt (\<lambda>a b. cmp a b \<le> 0) (js_sort cmp xs)"
  unfolding js_sort_def
  by (induction xs) (simp_all add: sorted_insert_by [OF assms])

lemma filter_insert_by:
  assumes "\<And>y. P x \<Longrightarrow> P y \<Longrightarrow> cmp x y \<le> 0"
  shows "filter P (insert_by cmp x ys) = (if P x then x # filter P ys else filter P ys)"
  using assms by (induction ys) auto

lemma filter_js_sort:
  assumes "\<And>x y. P x \<Longrightarrow> P y \<Longrightarrow> cmp x y \<le> 0"
  shows "filter P (js_sort cmp xs) = filter P xs"
  unfolding js_sort_def
  by (induction xs) (simp_all add: filter_insert_by assms)

lemma count_insert_by: "count_list (insert_by cmp x ys) m = count_list (x # ys) m"
  by (induction ys) auto

lemma count_js_sort: "count_list (js_sort cmp xs) m = count_list xs m"
  unfolding js_sort_def by (induction xs) (simp_all add: count_insert_by)

lemma sorted_compare_messages:
  "sorted_wrt (\<lambda>a b. video_timestamp a < video_timestamp b \<or>
                     (video_timestamp a = video_timestamp b \<and> timestamp_or_zero a \<le> timestamp_or_zero b))
     (js_sort compare_messages xs)"
proof -
  have "sorted_wrt (\<lambda>a b. compare_messages a b \<le> 0) (js_sort compare_messages xs)"
    by (rule sorted_js_sort) (auto simp: compare_messages_le)
  then show ?thesis
    by (simp add: compare_messages_le)
qed

lemma chat_range:
  assumes "- (2 ^ 53) \<le> s" "e < 2 ^ 53"
  shows "chat comments (Whole s) (Whole e) =
     Some \<lparr>shards = [s..e], statusCode = 200,
           json = js_sort compare_messages (concat (map (\<lambda>t. shard_messages (comments t) t) [s..e]))\<rparr>"
  by (simp add: chat_def collected_range [OF assms])




text \<open>
  Claim C7, for the ranges in which the counter is exact (from \<open>- 2 ^ 53\<close>, to below \<open>2 ^ 53\<close>).
  Every second of the range is requested, the answer is sent with status 200, and it holds the
  messages of the shards, each as often as the shards hold it, in ascending order of
  (\<open>video_timestamp\<close>, \<open>timestamp\<close> or 0). A shard whose fetch is rejected or answers a status
  that is not 2xx gives no message; a shard that answers 2xx with an array gives every message
  of the array, stamped with its second.
\<close>

theorem chat_failed_shard_skipped:
  assumes "- (2 ^ 53) \<le> s" and "e < 2 ^ 53"
  shows
    "chat comments (Whole s) (Whole e) =
       Some \<lparr>shards = [s..e], statusCode = 200,
             json = js_sort compare_messages (concat (map (\<lambda>t. shard_messages (comments t) t) [s..e]))\<rparr> \<and>
     (\<forall>m. count_list (js_sort compare_messages (concat (map (\<lambda>t. shard_messages (comments t) t) [s..e]))) m =
          count_list (concat (map (\<lambda>t. shard_messages (comments t) t) [s..e])) m) \<and>
     sorted_wrt (\<lambda>a b. video_timestamp a < video_timestamp b \<or>
                       (video_timestamp a = video_timestamp b \<and> timestamp_or_zero a \<le> timestamp_or_zero b))
       (js_sort compare_messages (concat (map (\<lambda>t. shard_messages (comments t) t) [s..e]))) \<and>
     (\<forall>t. comments t = Rejected \<or> (\<exists>response. comments t = Resolved response \<and> \<not> ok response) \<longrightarrow>
          shard_messages (comments t) t = []) \<and>
     (\<forall>t response messages. comments t = Resolved response \<and> ok response \<and> body response = Some messages \<longrightarrow>
          shard_messages (comments t) t = map (stamp t) messages)"
proof -
  have "shard_messages (comments t) t = []"
    if "comments t = Rejected \<or> (\<exists>response. comments t = Resolved response \<and> \<not> ok response)" for t
    using that by (auto simp: shard_messages_def)
  moreover have "shard_messages (comments t) t = map (stamp t) messages"
    if "comments t = Resolved response \<and> ok response \<and> body response = Some messages"
    for t response messages
    using that by (simp add: shard_messages_def)
  ultimately show ?thesis
    using chat_range [OF assms, of comments] by (simp add: count_js_sort sorted_compare_messages)
qed

text \<open>
  The range 41 to 43 with second 42 failing and one message each at 41 and 43: all three
  shards are requested and exactly the two messages are sent, in order.
\<close>

theorem chat_failed_shard_skipped_witness:
  "- (2 ^ 53) \<le> (41::int) \<and> (43::int) < 2 ^ 53 \<and>
   chat (\<lambda>t. if t = 41 then Resolved \<lparr>status = 200, headers = Map.empty, body = Some [\<lparr>timestamp = Some 7, payload = ''first''\<rparr>]\<rparr>
          else if t = 43 then Resolved \<lparr>status = 200, headers = Map.empty, body = Some [\<lparr>timestamp = Some 2, payload = ''second''\<rparr>]\<rparr>
          else Rejected) (Whole 41) (Whole 43) =
     Some \<lparr>shards = [41, 42, 43], statusCode = 200,
           json = [\<lparr>timestamp = Some 7, payload = ''first'', video_timestamp = 41\<rparr>,
                   \<lparr>timestamp = Some 2, payload = ''second'', video_timestamp = 43\<rparr>]\<rparr>"
proof -
  let ?up = "\<lambda>t::int. if t = 41 then Resolved \<lparr>status = 200, headers = Map.empty, body = Some [\<lparr>timestamp = Some 7, payload = ''first''\<rparr>]\<rparr>
          else if t = 43 then Resolved \<lparr>status = 200, headers = Map.empty, body = Some [\<lparr>timestamp = Some 2, payload = ''second''\<rparr>]\<rparr>
          else Rejected"
  have range: "[41..43] = [41, 42, 43::int]"
    by (simp add: upto_rec1)
  have bounds: "- (2 ^ 53) \<le> (41::int)" "(43::int) < 2 ^ 53"
    by simp_all
  have "js_sort compare_messages (concat (map (\<lambda>t. shard_messages (?up t) t) [41, 42, 43])) =
        [\<lparr>timestamp = Some 7, payload = ''first'', video_timestamp = 41\<rparr>,
         \<lparr>timestamp = Some 2, payload = ''second'', video_timestamp = 43\<rparr>]"
    by (simp add: shard_messages_def ok_def stamp_def js_sort_def compare_messages_def)
  with chat_failed_shard_skipped [OF bounds, of ?up] range bounds show ?thesis
    by simp
qed

text \<open>
  At \<open>2 ^ 53\<close> the counter no longer moves: \<open>t++\<close> leaves it where it is, the loop does not end
  and the handler never answers. Here the shard of second \<open>2 ^ 53 - 1\<close> fails and that of
  \<open>2 ^ 53\<close> holds a message.
\<close>

theorem chat_never_answers_counterexample:
  "chat (\<lambda>t. if t = 9007199254740991 then Rejected
              else Resolved \<lparr>status = 200, headers = Map.empty,
                     body = Some [\<lparr>timestamp = Some 7, payload = ''first''\<rparr>]\<rparr>)
     (Whole 9007199254740991) (Whole 9007199254740992) = None"
  by (simp add: chat_def collected_def chat_loop_step chat_loop_stalled increment_limit)

text \<open>
  Claim C5. The messages of an assembled range are in ascending order of the pair
  (\<open>video_timestamp\<close>, \<open>timestamp\<close> or 0): of two messages the earlier has the smaller
  \<open>video_timestamp\<close>, or the same and a \<open>timestamp\<close> that is not larger. Messages that agree
  on both stand in the order in which the shards delivered them.
\<close>

theorem chat_messages_ordered:
  assumes "chat comments start stop = Some r"
  shows
    "sorted_wrt (\<lambda>a b. video_timestamp a < video_timestamp b \<or>
                       (video_timestamp a = video_timestamp b \<and> timestamp_or_zero a \<le> timestamp_or_zero b))
       (json r) \<and>
     (\<exists>st. collected comments start stop = Some st \<and>
        (\<forall>t x. filter (\<lambda>m. video_timestamp m = t \<and> timestamp_or_zero m = x) (json r) =
               filter (\<lambda>m. video_timestamp m = t \<and> timestamp_or_zero m = x) (allMessages st)))"
proof -
  let ?le = "\<lambda>a b :: 'a chat_message. video_timestamp a < video_timestamp b \<or>
      (video_timestamp a = video_timestamp b \<and> timestamp_or_zero a \<le> timestamp_or_zero b)"
  have le: "(\<lambda>a b :: 'a chat_message. compare_messages a b \<le> 0) = ?le"
    by (intro ext) (rule compare_messages_le)
  have "sorted_wrt (\<lambda>a b. compare_messages a b \<le> 0) (js_sort compare_messages xs)"
    for xs :: "'a chat_message list"
    by (rule sorted_js_sort) (auto simp: compare_messages_le)
  then have sorted: "sorted_wrt ?le (js_sort compare_messages xs)" for xs :: "'a chat_message list"
    unfolding le .
  have stable: "filter (\<lambda>m. video_timestamp m = t \<and> timestamp_or_zero m = x) (js_sort compare_messages xs) =
      filter (\<lambda>m. video_timestamp m = t \<and> timestamp_or_zero m = x) xs"
    for xs :: "'a chat_message list" and t x
    by (rule filter_js_sort) (simp add: compare_messages_le)
  obtain st where st: "collected comments start stop = Some st"
    "r = \<lparr>shards = requested st, statusCode = 200, json = js_sort compare_messages (allMessages st)\<rparr>"
    using assms by (auto simp: chat_def)
  show ?thesis
    using st by (simp add: sorted stable)
qed

text \<open>
  Two shards, the first with its two messages out of order and the second with one without
  \<open>timestamp\<close>.
\<close>

theorem chat_messages_ordered_witness:
  "chat (\<lambda>t. if t = 1 then Resolved \<lparr>status = 200, headers = Map.empty,
                    body = Some [\<lparr>timestamp = Some 9, payload = ''b''\<rparr>, \<lparr>timestamp = Some 3, payload = ''a''\<rparr>]\<rparr>
              else Resolved \<lparr>status = 200, headers = Map.empty, body = Some [\<lparr>timestamp = None, payload = ''c''\<rparr>]\<rparr>)
     (Whole 1) (Whole 2) =
     Some \<lparr>shards = [1, 2], statusCode = 200,
           json = [\<lparr>timestamp = Some 3, payload = ''a'', video_timestamp = 1\<rparr>,
                   \<lparr>timestamp = Some 9, payload = ''b'', video_timestamp = 1\<rparr>,
                   \<lparr>timestamp = None, payload = ''c'', video_timestamp = 2\<rparr>]\<rparr> \<and>
   sorted_wrt (\<lambda>a b. video_timestamp a < video_timestamp b \<or>
                     (video_timestamp a = video_timestamp b \<and> timestamp_or_zero a \<le> timestamp_or_zero b))
     [\<lparr>timestamp = Some 3, payload = ''a'', video_timestamp = 1\<rparr>,
      \<lparr>timestamp = Some 9, payload = ''b'', video_timestamp = 1\<rparr>,
      \<lparr>timestamp = None, payload = ''c'', video_timestamp = 2\<rparr>]"
proof -
  let ?up = "\<lambda>t::int. if t = 1 then Resolved \<lparr>status = 200, headers = Map.empty,
                    body = Some [\<lparr>timestamp = Some 9, payload = ''b''\<rparr>, \<lparr>timestamp = Some 3, payload = ''a''\<rparr>]\<rparr>
              else Resolved \<lparr>status = 200, headers = Map.empty, body = Some [\<lparr>timestamp = None, payload = ''c''\<rparr>]\<rparr>"
  let ?r = "\<lparr>shards = [1, 2], statusCode = 200,
           json = [\<lparr>timestamp = Some 3, payload = ''a'', video_timestamp = 1\<rparr>,
                   \<lparr>timestamp = Some 9, payload = ''b'', video_timestamp = 1\<rparr>,
                   \<lparr>timestamp = None, payload = ''c'', video_timestamp = 2\<rparr>]\<rparr>"
  have range: "[1..2] = [1, 2::int]"
    by (simp add: upto_rec1)
  have answer: "chat ?up (Whole 1) (Whole 2) = Some ?r"
    by (simp add: chat_range range shard_messages_def ok_def stamp_def js_sort_def compare_messages_def
        timestamp_or_zero_def)
  from chat_messages_ordered [OF answer] answer show ?thesis
    by simp
qed

section \<open>Properties of the metadata sync\<close>

subsection \<open>One run, and runs in turn\<close>

lemma stringified_parsed [simp]: "stringified (parsed r) = r"
  by (cases "stored_duration r") (simp_all add: stringified_def parsed_def)

lemma saveMetadata_loadMetadata [simp]: "saveMetadata (loadMetadata True disk) = disk"
  by (rule ext) (simp add: saveMetadata_def loadMetadata_def option.map_comp comp_def option.map_ident)

lemma dom_saveMetadata [simp]: "dom (saveMetadata m) = dom m"
  by (auto simp: saveMetadata_def dom_def)

lemma dom_loadMetadata [simp]: "dom (loadMetadata True disk) = dom disk"
  by (auto simp: loadMetadata_def dom_def)















section \<open>Properties of the manifest rewrite\<close>

subsection \<open>Lines\<close>

lemma single_line_simps [simp]:
  "single_line []"
  "single_line (c # cs) \<longleftrightarrow> \<not> isLineTerminator c \<and> single_line cs"
  "single_line (xs @ ys) \<longleftrightarrow> single_line xs \<and> single_line ys"
  by (simp_all add: single_line_def)

lemma single_line_set: "single_line s \<longleftrightarrow> (\<forall>c \<in> set s. \<not> isLineTerminator c)"
  by (simp add: single_line_def list_all_iff)

lemma single_line_take: "single_line s \<Longrightarrow> single_line (take n s)"
  by (auto simp: single_line_set dest: in_set_takeD)

lemma single_line_drop: "single_line s \<Longrightarrow> single_line (drop n s)"
  by (auto simp: single_line_set dest: in_set_dropD)

lemma line_end_simps [simp]:
  "line_end []"
  "line_end (c # cs) \<longleftrightarrow> isLineTerminator c"
  by (simp_all add: line_end_def)

text \<open>Every text is a line, or a line, a terminator and a text.\<close>

lemma first_line_cases:
  obtains (last_line) "single_line s"
  | (more_lines) l t r where "s = l @ t # r" "single_line l" "isLineTerminator t"
proof (cases "single_line s")
  case True
  then show ?thesis by (rule last_line)
next
  case False
  let ?l = "takeWhile (\<lambda>c. \<not> isLineTerminator c) s"
  let ?r = "dropWhile (\<lambda>c. \<not> isLineTerminator c) s"
  have "?r \<noteq> []"
    using False by (auto simp: single_line_set)
  then obtain t r where r: "?r = t # r"
    by (cases ?r) auto
  then have t: "isLineTerminator t"
    using hd_dropWhile [of "\<lambda>c. \<not> isLineTerminator c" s] by auto
  have s: "s = ?l @ t # r"
    using r takeWhile_dropWhile_id [of "\<lambda>c. \<not> isLineTerminator c" s] by simp
  have "single_line ?l"
    by (auto simp: single_line_set dest: set_takeWhileD)
  with s show ?thesis
    using t by (rule more_lines)
qed

lemma lines_induct [case_names last_line more_lines]:
  assumes "\<And>l. single_line l \<Longrightarrow> P l"
    and "\<And>l t r. single_line l \<Longrightarrow> isLineTerminator t \<Longrightarrow> P r \<Longrightarrow> P (l @ t # r)"
  shows "P s"
proof (induction s rule: length_induct)
  case (1 s)
  show ?case
  proof (cases s rule: first_line_cases)
    case last_line
    then show ?thesis by (rule assms(1))
  next
    case (more_lines l t r)
    then have "P r"
      using 1 by simp
    with more_lines show ?thesis
      using assms(2) by simp
  qed
qed

lemma takeWhile_line:
  "single_line l \<Longrightarrow> line_end r \<Longrightarrow> takeWhile (\<lambda>c. \<not> isLineTerminator c) (l @ r) = l"
  by (cases r) (auto simp: single_line_set takeWhile_append2 intro: takeWhile_eq_all_conv [THEN iffD2])

lemma split_when_line:
  "\<forall>c \<in> set l. \<not> sep c \<Longrightarrow> split_when sep l = [l]"
  by (induction l) auto

lemma split_when_next:
  "\<forall>c \<in> set l. \<not> sep c \<Longrightarrow> sep t \<Longrightarrow> split_when sep (l @ t # r) = l # split_when sep r"
  by (induction l) auto

lemma split_when_not_Nil [simp]: "split_when sep s \<noteq> []"
  by (induction s) (auto split: list.splits)

lemma jslines_line: "single_line l \<Longrightarrow> jslines l = [l]"
  by (simp add: jslines_def single_line_set split_when_line)

lemma jslines_next:
  "single_line l \<Longrightarrow> isLineTerminator t \<Longrightarrow> jslines (l @ t # r) = l # jslines r"
  by (simp add: jslines_def single_line_set split_when_next)

lemma map_lines_from_append:
  "single_line l \<Longrightarrow> map_lines_from f cur (l @ s) = map_lines_from f (rev l @ cur) s"
  by (induction l arbitrary: cur) auto

lemma map_lines_line: "single_line l \<Longrightarrow> map_lines f l = f l"
  using map_lines_from_append [of l f "[]" "[]"] by (simp add: map_lines_def)

lemma map_lines_next:
  "single_line l \<Longrightarrow> isLineTerminator t \<Longrightarrow> map_lines f (l @ t # r) = f l @ t # map_lines f r"
  using map_lines_from_append [of l f "[]" "t # r"] by (simp add: map_lines_def)

lemma jslines_map_lines:
  assumes "\<And>l. single_line l \<Longrightarrow> single_line (f l)"
  shows "jslines (map_lines f s) = map f (jslines s)"
  by (induction s rule: lines_induct)
    (simp_all add: map_lines_line map_lines_next jslines_line jslines_next assms)

lemma map_lines_compose:
  assumes "\<And>l. single_line l \<Longrightarrow> single_line (g l)"
  shows "map_lines f (map_lines g s) = map_lines (\<lambda>l. f (g l)) s"
  by (induction s rule: lines_induct) (simp_all add: map_lines_line map_lines_next assms)

lemma map_lines_cong:
  assumes "\<And>l. l \<in> set (jslines s) \<Longrightarrow> f l = g l"
  shows "map_lines f s = map_lines g s"
  using assms
  by (induction s rule: lines_induct) (simp_all add: map_lines_line map_lines_next jslines_line jslines_next)

lemma map_lines_ident: "map_lines (\<lambda>l. l) s = s"
  by (induction s rule: lines_induct) (simp_all add: map_lines_line map_lines_next)

subsection \<open>The expressions anchored to a line\<close>

lemma prefix_in_line:
  assumes "single_line p" "line_end r"
  shows "prefix p (l @ r) \<longleftrightarrow> prefix p l"
proof
  assume "prefix p (l @ r)"
  then have "prefix p l \<or> (\<exists>us. p = l @ us \<and> prefix us r)"
    by (simp add: prefix_append)
  then show "prefix p l"
  proof
    assume "\<exists>us. p = l @ us \<and> prefix us r"
    then obtain us where us: "p = l @ us" "prefix us r"
      by blast
    show ?thesis
    proof (cases us)
      case Nil
      with us show ?thesis by simp
    next
      case (Cons c us')
      with us obtain r' where "r = c # r'"
        by (cases r) auto
      with Cons us assms have False by simp
      then show ?thesis ..
    qed
  qed
qed auto

lemma absolute_or_comment_line:
  "line_end r \<Longrightarrow> absolute_or_comment (l @ r) = absolute_or_comment l"
  by (simp add: absolute_or_comment_def prefix_in_line isLineTerminator_def)

lemma ext_at_line_end:
  assumes "single_line l" "line_end r" "single_line ext" "j \<le> length l"
  shows "prefix ext (drop j (l @ r)) \<and> line_end (drop (j + length ext) (l @ r))
     \<longleftrightarrow> j + length ext = length l \<and> drop j l = ext"
proof
  assume a: "prefix ext (drop j (l @ r)) \<and> line_end (drop (j + length ext) (l @ r))"
  have d: "drop j (l @ r) = drop j l @ r"
    using assms(4) by simp
  have "prefix ext (drop j l @ r)"
    using a d by simp
  then have "prefix ext (drop j l)"
    using assms(2,3) by (simp only: prefix_in_line)
  then obtain rest where rest: "drop j l = ext @ rest"
    by (auto simp: prefix_def)
  have l: "l = take j l @ ext @ rest"
    using rest by (metis append_take_drop_id)
  have lenj: "length (take j l) = j"
    using assms(4) by simp
  have "drop (j + length ext) (l @ r) = drop (j + length ext) ((take j l @ ext) @ rest @ r)"
    using l by (metis append.assoc)
  also have "\<dots> = rest @ r"
    using lenj by (metis append_eq_conv_conj length_append)
  finally have e: "line_end (rest @ r)"
    using a by simp
  have "single_line rest"
    using assms(1) l by (metis single_line_simps(3))
  with e have "rest = []"
    by (cases rest) auto
  with rest l lenj show "j + length ext = length l \<and> drop j l = ext"
    by (metis append_Nil2 length_append)
next
  assume b: "j + length ext = length l \<and> drop j l = ext"
  have "drop j (l @ r) = ext @ r"
    using b assms(4) by simp
  moreover have "drop (j + length ext) (l @ r) = r"
    using b by simp
  ultimately show "prefix ext (drop j (l @ r)) \<and> line_end (drop (j + length ext) (l @ r))"
    using assms(2) by simp
qed

lemma dot_plus_ext_line:
  assumes "single_line l" "line_end r" "single_line ext"
  shows "k \<le> length l \<Longrightarrow>
    dot_plus_ext ext (l @ r) k =
      (if suffix ext l \<and> length ext < length l \<and> length l \<le> k + length ext
       then Some (length l) else None)"
proof (induction k)
  case 0
  then show ?case by auto
next
  case (Suc k)
  have here: "prefix ext (drop (Suc k) (l @ r)) \<and> line_end (drop (Suc k + length ext) (l @ r))
     \<longleftrightarrow> Suc k + length ext = length l \<and> drop (Suc k) l = ext"
    using assms Suc.prems by (rule ext_at_line_end)
  show ?case
  proof (cases "Suc k + length ext = length l \<and> drop (Suc k) l = ext")
    case True
    then have "suffix ext l"
      by (metis suffix_drop)
    with True here show ?thesis
      by (simp del: drop_append)
  next
    case False
    have "\<not> (suffix ext l \<and> length l = Suc k + length ext)"
    proof
      assume s: "suffix ext l \<and> length l = Suc k + length ext"
      then obtain stem where "l = stem @ ext"
        by (auto simp: suffix_def)
      with s have "drop (Suc k) l = ext"
        by simp
      with s False show False by simp
    qed
    with False here Suc show ?thesis
      by (auto simp del: drop_append)
  qed
qed

lemma relative_line_eq:
  assumes "single_line l" "line_end r" "single_line ext"
  shows "relative_line ext prev (l @ r) =
    (if line_start prev \<and> \<not> absolute_or_comment l \<and> suffix ext l \<and> length ext < length l
     then Some (l, length l) else None)"
  using assms by (simp add: relative_line_def takeWhile_line dot_plus_ext_line absolute_or_comment_line)

lemma rewritten_line_Nil [simp]: "rewritten_line ext pre [] = []"
  by (simp add: rewritten_line_def)

lemma replace_all_within_line:
  assumes "single_line ext" "line_end r"
  shows "single_line l \<Longrightarrow>
    replace_all (relative_line ext) (\<lambda>g. pre @ g) prev (l @ r) =
      (if line_start prev then rewritten_line ext pre l else l) @
      replace_all (relative_line ext) (\<lambda>g. pre @ g) (if l = [] then prev else Some (last l)) r"
proof (induction l arbitrary: prev)
  case Nil
  then show ?case by simp
next
  case (Cons c l)
  let ?m = "relative_line ext"
  let ?rep = "\<lambda>g. pre @ g"
  have line: "single_line (c # l)" "single_line l" "\<not> isLineTerminator c"
    using Cons.prems by simp_all
  have m: "?m prev ((c # l) @ r) =
    (if line_start prev \<and> \<not> absolute_or_comment (c # l) \<and> suffix ext (c # l) \<and> length ext < length (c # l)
     then Some (c # l, length (c # l)) else None)"
    using line(1) assms(2,1) by (rule relative_line_eq)
  show ?case
  proof (cases "line_start prev \<and> \<not> absolute_or_comment (c # l) \<and> suffix ext (c # l) \<and> length ext < length (c # l)")
    case True
    have "?m prev ((c # l) @ r) = Some (c # l, length (c # l))"
      unfolding m using True by (rule if_P)
    then have "replace_all ?m ?rep prev ((c # l) @ r) =
        pre @ (c # l) @ replace_all ?m ?rep (Some (last (c # l))) r"
      by simp
    with True show ?thesis
      by (simp add: rewritten_line_def)
  next
    case False
    have "?m prev ((c # l) @ r) = None"
      unfolding m using False by (rule if_not_P)
    then have "replace_all ?m ?rep prev ((c # l) @ r) = c # replace_all ?m ?rep (Some c) (l @ r)"
      by simp
    also have "\<dots> = c # l @ replace_all ?m ?rep (if l = [] then Some c else Some (last l)) r"
      using Cons.IH [OF line(2), of "Some c"] line(3) by (simp add: line_start_def)
    finally show ?thesis
      using False by (auto simp: rewritten_line_def)
  qed
qed

lemma replace_all_at_terminator:
  assumes "single_line ext" "line_end s"
  shows "replace_all (relative_line ext) rep prev s =
    (case s of [] \<Rightarrow> [] | t # r \<Rightarrow> t # replace_all (relative_line ext) rep (Some t) r)"
proof -
  have "relative_line ext prev ([] @ s) = None"
    using assms by (subst relative_line_eq) simp_all
  then show ?thesis
    by (cases s) simp_all
qed

lemma replace_all_map_lines:
  assumes "single_line ext"
  shows "line_start prev \<Longrightarrow>
    replace_all (relative_line ext) (\<lambda>g. pre @ g) prev s = map_lines (rewritten_line ext pre) s"
proof (induction s arbitrary: prev rule: lines_induct)
  case (last_line l)
  then show ?case
    using replace_all_within_line [OF assms, of "[]" l pre prev]
      replace_all_at_terminator [OF assms, of "[]"]
    by (simp add: map_lines_line)
next
  case (more_lines l t r)
  have "replace_all (relative_line ext) (\<lambda>g. pre @ g) prev (l @ t # r) =
      rewritten_line ext pre l @ t # replace_all (relative_line ext) (\<lambda>g. pre @ g) (Some t) r"
    using replace_all_within_line [OF assms, of "t # r" l pre prev] more_lines
      replace_all_at_terminator [OF assms, of "t # r"]
    by simp
  moreover have "line_start (Some t)"
    using more_lines by (simp add: line_start_def)
  ultimately show ?case
    using more_lines by (simp add: map_lines_next)
qed

lemma segments_absolute_lines:
  "segments_absolute s = map_lines (rewritten_line ''.ts'' upstream_videos) s"
  unfolding segments_absolute_def
  by (rule replace_all_map_lines) (simp_all add: isLineTerminator_def line_start_def)

lemma mp4_proxied_lines:
  "mp4_proxied s = map_lines (rewritten_line ''.mp4'' ''/api/mp4/'') s"
  unfolding mp4_proxied_def
  by (rule replace_all_map_lines) (simp_all add: isLineTerminator_def line_start_def)

subsection \<open>The expression for the URI attribute\<close>

lemma quote_free_simps [simp]:
  "quote_free []"
  "quote_free (c # cs) \<longleftrightarrow> c \<noteq> dquote \<and> quote_free cs"
  "quote_free (xs @ ys) \<longleftrightarrow> quote_free xs \<and> quote_free ys"
  by (simp_all add: quote_free_def)

lemma quote_free_set: "quote_free s \<longleftrightarrow> dquote \<notin> set s"
  by (auto simp: quote_free_def list_all_iff)

lemma quote_next_simps [simp]:
  "quote_next []"
  "quote_next (c # cs) \<longleftrightarrow> c = dquote"
  by (simp_all add: quote_next_def)

lemma quote_free_literals [simp]:
  "quote_free ''.mp4''" "quote_free ''URI=''" "quote_free ''/api/mp4/''" "quote_free upstream_videos"
  by (simp_all add: dquote_def upstream_videos_def)

lemma takeWhile_run:
  "quote_free run \<Longrightarrow> quote_next rest \<Longrightarrow> takeWhile (\<lambda>c. c \<noteq> dquote) (run @ rest) = run"
  by (induction run) (auto simp: quote_next_def split: list.splits)

lemma quote_next_dropWhile: "quote_next (dropWhile (\<lambda>c. c \<noteq> dquote) s)"
  by (induction s) auto

lemma run_cases:
  obtains run rest where "s = run @ rest" "quote_free run" "quote_next rest"
proof
  show "s = takeWhile (\<lambda>c. c \<noteq> dquote) s @ dropWhile (\<lambda>c. c \<noteq> dquote) s"
    by simp
  show "quote_free (takeWhile (\<lambda>c. c \<noteq> dquote) s)"
    by (auto simp: quote_free_set dest: set_takeWhileD)
  show "quote_next (dropWhile (\<lambda>c. c \<noteq> dquote) s)"
    by (rule quote_next_dropWhile)
qed

lemma mp4_quote_at:
  assumes "quote_free run" "quote_next rest" "j \<le> length run"
  shows "prefix (''.mp4'' @ [dquote]) (drop j (run @ rest))
     \<longleftrightarrow> j + 4 = length run \<and> drop j run = ''.mp4'' \<and> rest \<noteq> []"
proof
  assume a: "prefix (''.mp4'' @ [dquote]) (drop j (run @ rest))"
  let ?d = "drop j run"
  have d: "drop j (run @ rest) = ?d @ rest"
    using assms(3) by simp
  have qd: "quote_free ?d"
    using assms(1) by (auto simp: quote_free_set dest: in_set_dropD)
  have "prefix (''.mp4'' @ [dquote]) (?d @ rest)"
    using a d by simp
  then have "prefix (''.mp4'' @ [dquote]) ?d \<or> (\<exists>us. ''.mp4'' @ [dquote] = ?d @ us \<and> prefix us rest)"
    by (simp only: prefix_append)
  moreover have "\<not> prefix (''.mp4'' @ [dquote]) ?d"
    using qd by (auto simp: quote_free_set dest!: set_mono_prefix)
  ultimately obtain us where us: "''.mp4'' @ [dquote] = ?d @ us" "prefix us rest"
    by blast
  have "us \<noteq> []"
  proof
    assume "us = []"
    then have "set ?d = set (''.mp4'' @ [dquote])"
      using us(1) by simp
    then show False
      using qd by (simp add: quote_free_set)
  qed
  then obtain us' rest' where u: "us = dquote # us'" "rest = dquote # rest'"
    using us(2) assms(2) by (cases us; cases rest) auto
  have "?d = ''.mp4''"
    using us(1) u qd by (auto simp: append_eq_Cons_conv Cons_eq_append_conv dquote_def)
  moreover from this have "j + 4 = length run"
    using assms(3) by (metis add.commute le_add_diff_inverse length_drop list.size(3,4) One_nat_def
        numeral_Bit0 numeral_One Suc_eq_plus1 add.assoc add_2_eq_Suc' plus_1_eq_Suc length_Cons)
  ultimately show "j + 4 = length run \<and> drop j run = ''.mp4'' \<and> rest \<noteq> []"
    using u by simp
next
  assume b: "j + 4 = length run \<and> drop j run = ''.mp4'' \<and> rest \<noteq> []"
  then obtain rest' where "rest = dquote # rest'"
    using assms(2) by (cases rest) auto
  moreover have "drop j (run @ rest) = ''.mp4'' @ rest"
    using b assms(3) by simp
  ultimately show "prefix (''.mp4'' @ [dquote]) (drop j (run @ rest))"
    by simp
qed

lemma nonquote_plus_mp4_run:
  assumes "quote_free run" "quote_next rest"
  shows "k \<le> length run \<Longrightarrow>
    nonquote_plus_mp4 (run @ rest) k =
      (if suffix ''.mp4'' run \<and> 4 < length run \<and> length run \<le> k + 4 \<and> rest \<noteq> []
       then Some (length run) else None)"
proof (induction k)
  case 0
  then show ?case by auto
next
  case (Suc k)
  have here: "prefix (''.mp4'' @ [dquote]) (drop (Suc k) (run @ rest))
     \<longleftrightarrow> Suc k + 4 = length run \<and> drop (Suc k) run = ''.mp4'' \<and> rest \<noteq> []"
    using assms Suc.prems by (rule mp4_quote_at)
  show ?case
  proof (cases "Suc k + 4 = length run \<and> drop (Suc k) run = ''.mp4'' \<and> rest \<noteq> []")
    case True
    then have "suffix ''.mp4'' run"
      by (metis suffix_drop)
    with True here show ?thesis
      by (simp del: drop_append)
  next
    case False
    have "\<not> (suffix ''.mp4'' run \<and> length run = Suc k + 4 \<and> rest \<noteq> [])"
    proof
      assume s: "suffix ''.mp4'' run \<and> length run = Suc k + 4 \<and> rest \<noteq> []"
      then obtain stem where "run = stem @ ''.mp4''"
        by (auto simp: suffix_def)
      with s have "drop (Suc k) run = ''.mp4''"
        by simp
      with s False show False by simp
    qed
    with False here Suc show ?thesis
      by (auto simp del: drop_append)
  qed
qed

lemma uri_attribute_no_prefix:
  "\<not> prefix uri_open s \<Longrightarrow> uri_attribute prev s = None"
  by (simp add: uri_attribute_def uri_open_def)

lemma uri_attribute_run:
  assumes "quote_free run" "quote_next rest"
  shows "uri_attribute prev (uri_open @ run @ rest) =
    (if suffix ''.mp4'' run \<and> 4 < length run \<and> rest \<noteq> []
     then Some (run, length run + 6) else None)"
proof -
  have "drop 5 (uri_open @ run @ rest) = run @ rest"
    by (simp add: uri_open_def)
  moreover have "prefix (''URI='' @ [dquote]) (uri_open @ run @ rest)"
    by (simp add: uri_open_def)
  ultimately show ?thesis
    using assms by (simp add: uri_attribute_def takeWhile_run nonquote_plus_mp4_run del: append.simps append_Cons)
qed

subsection \<open>The scan for URI attributes\<close>

lemma uri_any_prev:
  "replace_all uri_attribute rep p s = replace_all uri_attribute rep q s"
proof (induction s arbitrary: p q rule: length_induct)
  case (1 s)
  have m: "uri_attribute p' s' = uri_attribute None s'" for p' s'
    by (simp add: uri_attribute_def)
  show ?case
  proof (cases s)
    case Nil
    then show ?thesis
      using m [of p "[]"] m [of q "[]"] by simp
  next
    case (Cons c cs)
    have a: "replace_all uri_attribute rep (Some c) cs = replace_all uri_attribute rep x cs" for x
      using 1 Cons by simp
    have b: "replace_all uri_attribute rep x (drop (n - 1) cs) = replace_all uri_attribute rep y (drop (n - 1) cs)"
      for x y n
      using 1 Cons by simp
    show ?thesis
    proof (cases "uri_attribute None (c # cs)")
      case None
      then show ?thesis
        using Cons m [of p "c # cs"] m [of q "c # cs"] by simp
    next
      case (Some gn)
      obtain g n where "gn = (g, n)"
        by (cases gn)
      with Some show ?thesis
        using Cons m [of p "c # cs"] m [of q "c # cs"] b [of _ n] by simp
    qed
  qed
qed

lemma uri_proxied_eq: "uri_proxied s = replace_all uri_attribute proxied_uri prev s"
proof -
  have "(\<lambda>g. ''URI='' @ [dquote] @ ''/api/mp4/'' @ g @ [dquote]) = proxied_uri"
    by (intro ext) (simp add: proxied_uri_def)
  then show ?thesis
    unfolding uri_proxied_def using uri_any_prev [of proxied_uri None s prev] by simp
qed

lemma uri_proxied_Nil [simp]: "uri_proxied [] = []"
  by (simp add: uri_proxied_def uri_attribute_def)

lemma uri_proxied_no_match:
  assumes "uri_attribute None (c # cs) = None"
  shows "uri_proxied (c # cs) = c # uri_proxied cs"
proof -
  have "uri_proxied (c # cs) = c # replace_all uri_attribute proxied_uri (Some c) cs"
    using assms by (simp add: uri_proxied_eq [of _ None])
  then show ?thesis
    by (simp add: uri_proxied_eq [of cs "Some c"])
qed

lemma uri_proxied_match:
  assumes "quote_free g" "suffix ''.mp4'' g" "4 < length g"
  shows "uri_proxied (uri_open @ g @ dquote # v) = proxied_uri g @ uri_proxied v"
proof -
  have m: "uri_attribute None (uri_open @ g @ dquote # v) = Some (g, length g + 6)"
    using assms uri_attribute_run [of g "dquote # v" None] by simp
  obtain cs where cs: "uri_open @ g @ dquote # v = CHR ''U'' # cs" "cs = ''RI='' @ dquote # g @ dquote # v"
    by (simp add: uri_open_def)
  have "cs = (''RI='' @ dquote # g @ [dquote]) @ v"
    using cs(2) by simp
  moreover have "length (''RI='' @ dquote # g @ [dquote]) = length g + 6 - 1"
    by simp
  ultimately have "drop (length g + 6 - 1) cs = v"
    by (metis append_eq_conv_conj)
  moreover have "uri_attribute None (CHR ''U'' # cs) = Some (g, length g + 6)"
    using m cs(1) by simp
  ultimately have step: "replace_all uri_attribute proxied_uri None (CHR ''U'' # cs) =
      proxied_uri g @ replace_all uri_attribute proxied_uri
         (Some (last (take (length g + 6) (CHR ''U'' # cs)))) v"
    by simp
  have "uri_proxied (uri_open @ g @ dquote # v) = replace_all uri_attribute proxied_uri None (CHR ''U'' # cs)"
    unfolding cs(1) by (rule uri_proxied_eq)
  also note step
  also have "replace_all uri_attribute proxied_uri (Some (last (take (length g + 6) (CHR ''U'' # cs)))) v =
      uri_proxied v"
    by (rule uri_proxied_eq [symmetric])
  finally show ?thesis .
qed

lemma uri_open_length [simp]: "length uri_open = 5"
  by (simp add: uri_open_def)

lemma prefix_uri_open_take:
  assumes "w \<noteq> []" "prefix uri_open (w @ v)"
  shows "prefix uri_open (w @ take 4 v)"
proof -
  have "uri_open = take 5 (w @ v)"
    using assms(2) by (metis uri_open_length append_eq_conv_conj prefix_def)
  also have "\<dots> = take 5 (w @ take 4 v)"
    using assms(1) by (cases w) (simp_all add: min_def)
  finally show ?thesis
    by (metis take_is_prefix)
qed

lemma uri_proxied_skip:
  "\<not> sublist uri_open (w @ take 4 v) \<Longrightarrow> uri_proxied (w @ v) = w @ uri_proxied v"
proof (induction w)
  case Nil
  then show ?case by simp
next
  case (Cons c w)
  have "\<not> prefix uri_open ((c # w) @ take 4 v)"
    using Cons.prems by (meson prefix_imp_sublist)
  then have "\<not> prefix uri_open ((c # w) @ v)"
    using prefix_uri_open_take [of "c # w" v] by blast
  then have "uri_attribute None (c # w @ v) = None"
    by (simp add: uri_attribute_no_prefix)
  then have "uri_proxied ((c # w) @ v) = c # uri_proxied (w @ v)"
    by (simp add: uri_proxied_no_match)
  moreover have "\<not> sublist uri_open (w @ take 4 v)"
    using Cons.prems by (simp add: sublist_Cons_right)
  ultimately show ?case
    using Cons.IH by simp
qed

lemma nlt_simps [simp]:
  "nlt [] = 0"
  "nlt (c # cs) = (if isLineTerminator c then Suc (nlt cs) else nlt cs)"
  "nlt (xs @ ys) = nlt xs + nlt ys"
  by (simp_all add: nlt_def)

lemma nlt_single_line: "single_line l \<Longrightarrow> nlt l = 0"
  by (induction l) simp_all

lemma dquote_no_terminator [simp]: "\<not> isLineTerminator dquote"
  by (simp add: isLineTerminator_def dquote_def)

lemma single_line_literals [simp]:
  "single_line uri_open" "single_line ''/api/mp4/''" "single_line upstream_videos"
  "single_line ''.ts''" "single_line ''.mp4''"
  by (simp_all add: uri_open_def isLineTerminator_def dquote_def upstream_videos_def)

lemma nlt_literals [simp]: "nlt uri_open = 0" "nlt ''/api/mp4/'' = 0" "nlt upstream_videos = 0"
  by (simp_all add: isLineTerminator_def uri_open_def dquote_def upstream_videos_def)

lemma nlt_proxied_uri [simp]: "nlt (proxied_uri g) = nlt g"
  by (simp add: proxied_uri_def isLineTerminator_def dquote_def)

lemma bol_simps [simp]: "bol []" "bol [c] \<longleftrightarrow> isLineTerminator c"
  by (simp_all add: bol_def)

lemma bol_last: "s \<noteq> [] \<Longrightarrow> bol s \<longleftrightarrow> isLineTerminator (last s)"
  by (simp add: bol_def)

lemma bol_nlt_pos: "bol s \<Longrightarrow> s \<noteq> [] \<Longrightarrow> 0 < nlt s"
  by (induction s) (auto simp: bol_def split: if_splits)

lemma bol_append_right: "s \<noteq> [] \<Longrightarrow> bol (a @ s) \<longleftrightarrow> bol s"
  by (simp add: bol_def)

lemma bol_rebuilt:
  assumes "bol (a @ s)" "s \<noteq> []" "bol s'" "nlt s' = nlt s"
  shows "bol (a' @ s')"
proof -
  have "bol s"
    using assms(1,2) by (simp add: bol_append_right)
  then have "0 < nlt s'"
    using assms(2,4) bol_nlt_pos by simp
  then have "s' \<noteq> []"
    by auto
  then show ?thesis
    using assms(3) by (simp add: bol_append_right)
qed

lemma bol_not_in: 
  assumes "bol u" "u \<noteq> []" "single_line w"
  shows "\<not> prefix u w"
proof
  assume "prefix u w"
  then have "set u \<subseteq> set w"
    by (rule set_mono_prefix)
  then have "last u \<in> set w"
    using assms(2) by (meson last_in_set subsetD)
  then show False
    using assms by (auto simp: bol_def single_line_set)
qed

lemma before_line_Nil: "before_line [] v [] 0"
  by (simp add: before_line_def)

lemma before_line_terminator:
  assumes "isLineTerminator c"
  shows "before_line [c] v [c] 0"
proof -
  have "\<not> prefix uri_open (c # v)"
    using assms by (auto simp: uri_open_def isLineTerminator_def)
  then have "uri_proxied (c # v) = c # uri_proxied v"
    by (simp add: uri_attribute_no_prefix uri_proxied_no_match)
  then show ?thesis
    using assms by (simp add: before_line_def)
qed

lemma before_lineD:
  assumes "before_line u v u' k"
  shows "uri_proxied (u @ v) = u' @ take k v @ uri_proxied (drop k v)" "bol u'" "nlt u' = nlt u"
    "k = 0 \<or> (k \<le> length v \<and> quote_free (take (k - 1) v) \<and> suffix (''.mp4'' @ [dquote]) (u @ take k v))"
  using assms unfolding before_line_def by blast+

lemma before_line_extend:
  assumes r: "before_line x v x' k"
    and x: "bol (a @ x)" "x \<noteq> []"
    and out: "uri_proxied ((a @ x) @ v) = a' @ uri_proxied (x @ v)"
    and n: "nlt a' = nlt a"
  shows "before_line (a @ x) v (a' @ x') k"
proof -
  note rs = before_lineD [OF r]
  have 1: "bol (a' @ x')"
    using x rs(2,3) by (rule bol_rebuilt)
  have 2: "uri_proxied ((a @ x) @ v) = (a' @ x') @ take k v @ uri_proxied (drop k v)"
    unfolding out rs(1) by simp
  have 3: "nlt (a' @ x') = nlt (a @ x)"
    using n rs(3) by simp
  have "suffix s (x @ t) \<Longrightarrow> suffix s ((a @ x) @ t)" for s t
    by (metis append.assoc suffix_appendI)
  then have 4: "k = 0 \<or> (k \<le> length v \<and> quote_free (take (k - 1) v) \<and>
                suffix (''.mp4'' @ [dquote]) ((a @ x) @ take k v))"
    using rs(4) by blast
  show ?thesis
    unfolding before_line_def using 1 2 3 4 by blast
qed

lemma before_line_Cons:
  assumes none: "uri_attribute None (c # u1 @ v) = None"
    and u: "bol (c # u1)" "u1 \<noteq> []"
    and r: "before_line u1 v u1' k"
  shows "before_line (c # u1) v (c # u1') k"
proof -
  have "uri_proxied (([c] @ u1) @ v) = [c] @ uri_proxied (u1 @ v)"
    using none by (simp add: uri_proxied_no_match)
  moreover have "bol ([c] @ u1)"
    using u(1) by simp
  ultimately have "before_line ([c] @ u1) v ([c] @ u1') k"
    using r u(2) by (intro before_line_extend) simp_all
  then show ?thesis
    by simp
qed

lemma before_line_match_inside:
  assumes g: "quote_free g" "suffix ''.mp4'' g" "4 < length g"
    and u: "bol (uri_open @ g @ dquote # x)" "x \<noteq> []"
    and r: "before_line x v x' k"
  shows "before_line (uri_open @ g @ dquote # x) v (proxied_uri g @ x') k"
proof -
  have "uri_proxied (((uri_open @ g @ [dquote]) @ x) @ v) = proxied_uri g @ uri_proxied (x @ v)"
    using uri_proxied_match [OF g, of "x @ v"] by simp
  moreover have "bol ((uri_open @ g @ [dquote]) @ x)"
    using u(1) by simp
  moreover have "nlt (proxied_uri g) = nlt (uri_open @ g @ [dquote])"
    by simp
  ultimately have "before_line ((uri_open @ g @ [dquote]) @ x) v (proxied_uri g @ x') k"
    using r u(2) by (intro before_line_extend)
  then show ?thesis
    by simp
qed

lemma before_line_match_across:
  assumes g: "quote_free (y @ x0)" "suffix ''.mp4'' (y @ x0)" "4 < length (y @ x0)"
    and y: "y \<noteq> []" "isLineTerminator (last y)"
  shows "before_line (uri_open @ y) (x0 @ dquote # w) (uri_open @ ''/api/mp4/'' @ y) (Suc (length x0))"
proof -
  let ?v = "x0 @ dquote # w"
  have "uri_proxied (uri_open @ (y @ x0) @ dquote # w) = proxied_uri (y @ x0) @ uri_proxied w"
    using g by (rule uri_proxied_match)
  moreover have "take (Suc (length x0)) ?v = x0 @ [dquote]" "drop (Suc (length x0)) ?v = w"
    by simp_all
  ultimately have 1: "uri_proxied ((uri_open @ y) @ ?v) =
      (uri_open @ ''/api/mp4/'' @ y) @ take (Suc (length x0)) ?v @ uri_proxied (drop (Suc (length x0)) ?v)"
    by (simp add: proxied_uri_def uri_open_def)
  have 2: "bol (uri_open @ ''/api/mp4/'' @ y)"
    using y by (simp add: bol_def)
  have 3: "nlt (uri_open @ ''/api/mp4/'' @ y) = nlt (uri_open @ y)"
    by (simp add: isLineTerminator_def)
  have 4: "Suc (length x0) \<le> length ?v" "quote_free (take (Suc (length x0) - 1) ?v)"
    using g(1) by simp_all
  have "suffix (''.mp4'' @ [dquote]) ((y @ x0) @ [dquote])"
    using g(2) by (simp only: same_suffix_suffix)
  then have "suffix (''.mp4'' @ [dquote]) (uri_open @ (y @ x0) @ [dquote])"
    by (rule suffix_appendI)
  then have 5: "suffix (''.mp4'' @ [dquote]) ((uri_open @ y) @ take (Suc (length x0)) ?v)"
    by simp
  show ?thesis
    unfolding before_line_def using 1 2 3 4 5 by blast
qed

lemma uri_attribute_SomeD:
  assumes "uri_attribute None s = Some gn"
  shows "\<exists>g w. s = uri_open @ g @ dquote # w \<and> quote_free g \<and> suffix ''.mp4'' g \<and> 4 < length g"
proof -
  have "prefix uri_open s"
  proof (rule ccontr)
    assume "\<not> prefix uri_open s"
    then have "uri_attribute None s = None"
      by (rule uri_attribute_no_prefix)
    with assms show False by simp
  qed
  then obtain s' where s': "s = uri_open @ s'"
    by (auto simp: prefix_def)
  obtain run rest where rr: "s' = run @ rest" "quote_free run" "quote_next rest"
    by (rule run_cases)
  have "uri_attribute None (uri_open @ run @ rest) \<noteq> None"
    using assms s' rr(1) by simp
  then have m: "suffix ''.mp4'' run \<and> 4 < length run \<and> rest \<noteq> []"
    unfolding uri_attribute_run [OF rr(2,3)] by (simp split: if_splits)
  then obtain w where "rest = dquote # w"
    using rr(3) by (cases rest) auto
  then have "s = uri_open @ run @ dquote # w"
    using s' rr(1) by simp
  with m rr(2) show ?thesis
    by blast
qed

lemma last_uri_open [simp]: "last (uri_open @ []) = dquote" "last uri_open = dquote"
  by (simp_all add: uri_open_def)

lemma split_at_match:
  assumes eq: "u @ v = uri_open @ g @ dquote # w" and u: "bol u" "u \<noteq> []"
  obtains (inside) x where "u = uri_open @ g @ dquote # x" "x \<noteq> []" "w = x @ v"
  | (across) y x0 where "u = uri_open @ y" "g = y @ x0" "v = x0 @ dquote # w" "y \<noteq> []"
proof -
  have last_u: "isLineTerminator (last u)"
    using u by (simp add: bol_def)
  let ?M = "uri_open @ g @ [dquote]"
  have "u @ v = ?M @ w"
    using eq by simp
  then have "(\<exists>x. u = ?M @ x \<and> x @ v = w) \<or> (\<exists>x. u @ x = ?M \<and> v = x @ w)"
    unfolding append_eq_append_conv2 [of u v ?M w] by blast
  then show thesis
  proof
    assume "\<exists>x. u = ?M @ x \<and> x @ v = w"
    then obtain x where x: "u = ?M @ x" "x @ v = w"
      by blast
    have "x \<noteq> []"
    proof
      assume "x = []"
      then have "last u = dquote"
        using x(1) by simp
      then show False
        using last_u by simp
    qed
    then show thesis
      using x by (intro inside [of x]) simp_all
  next
    assume "\<exists>x. u @ x = ?M \<and> v = x @ w"
    then obtain x where x: "u @ x = ?M" "v = x @ w"
      by blast
    have xnz: "x \<noteq> []"
    proof
      assume "x = []"
      then have "last u = dquote"
        using x(1) by (metis append_Nil2 last_snoc append.assoc)
      then show False
        using last_u by simp
    qed
    have np: "\<not> prefix u uri_open"
      using u by (intro bol_not_in) simp_all
    from x(1) have "(\<exists>y. u = uri_open @ y \<and> y @ x = g @ [dquote]) \<or>
        (\<exists>y. u @ y = uri_open \<and> x = y @ g @ [dquote])"
      unfolding append_eq_append_conv2 [of u x uri_open "g @ [dquote]"] by blast
    moreover have "\<not> (\<exists>y. u @ y = uri_open \<and> x = y @ g @ [dquote])"
      using np by (metis prefixI)
    ultimately obtain y where y: "u = uri_open @ y" "y @ x = g @ [dquote]"
      by blast
    have "y @ butlast x @ [last x] = g @ [dquote]"
      using y(2) xnz by simp
    then have "y @ butlast x = g \<and> last x = dquote"
      by (metis append.assoc append1_eq_conv)
    then have x0: "x = butlast x @ [dquote]" "g = y @ butlast x"
      using xnz by (metis append_butlast_last_id)+
    have "y \<noteq> []"
    proof
      assume "y = []"
      then have "last u = dquote"
        using y(1) by simp
      then show False
        using last_u by simp
    qed
    moreover have "v = butlast x @ dquote # w"
      using x(2) x0(1) by (metis append.assoc append_Cons append_Nil)
    ultimately show thesis
      using y(1) x0(2) by (intro across [of y "butlast x"])
  qed
qed

lemma uri_proxied_before_line:
  "bol u \<Longrightarrow> \<exists>u' k. before_line u v u' k"
proof (induction u rule: length_induct)
  case (1 u)
  have IH: "\<exists>u' k. before_line x v u' k" if "length x < length u" "bol x" for x
    using 1(1) that by blast
  show ?case
  proof (cases u)
    case Nil
    then show ?thesis
      using before_line_Nil by blast
  next
    case (Cons c u1)
    show ?thesis
    proof (cases "uri_attribute None (u @ v)")
      case None
      show ?thesis
      proof (cases "u1 = []")
        case True
        then have "isLineTerminator c"
          using 1(2) Cons by simp
        then have "before_line [c] v [c] 0"
          by (rule before_line_terminator)
        then show ?thesis
          using True Cons by blast
      next
        case False
        then have "bol u1"
          using 1(2) Cons by (simp add: bol_def)
        then obtain u1' k where "before_line u1 v u1' k"
          using IH [of u1] Cons by auto
        moreover have "uri_attribute None (c # u1 @ v) = None"
          using None Cons by simp
        moreover have "bol (c # u1)"
          using 1(2) Cons by simp
        ultimately have "before_line (c # u1) v (c # u1') k"
          using False by (intro before_line_Cons)
        then show ?thesis
          using Cons by blast
      qed
    next
      case (Some gn)
      then obtain g w where gw: "u @ v = uri_open @ g @ dquote # w" "quote_free g"
          "suffix ''.mp4'' g" "4 < length g"
        using uri_attribute_SomeD by blast
      have unz: "u \<noteq> []"
        using Cons by simp
      from gw(1) 1(2) unz show ?thesis
      proof (cases rule: split_at_match)
        case (inside x)
        have "bol x"
          using 1(2) inside(1,2) by (simp add: bol_def)
        moreover have "length x < length u"
          using inside(1) by simp
        ultimately obtain x' k where "before_line x v x' k"
          using IH [of x] by auto
        moreover have "bol (uri_open @ g @ dquote # x)"
          using 1(2) inside(1) by simp
        ultimately have "before_line (uri_open @ g @ dquote # x) v (proxied_uri g @ x') k"
          using gw(2-4) inside(2) by (intro before_line_match_inside)
        then show ?thesis
          using inside(1) by blast
      next
        case (across y x0)
        have "isLineTerminator (last y)"
          using 1(2) across(1,4) by (simp add: bol_def)
        then have "before_line (uri_open @ y) (x0 @ dquote # w) (uri_open @ ''/api/mp4/'' @ y) (Suc (length x0))"
          using gw(2-4) across(2,4) by (intro before_line_match_across) simp_all
        then show ?thesis
          using across(1,3) by blast
      qed
    qed
  qed
qed

subsection \<open>Lines that the scan for URI attributes leaves alone or rewrites\<close>

lemma no_uri_open_before_line_end:
  assumes "\<not> sublist uri_open w" "line_end t" "length t < 5"
  shows "\<not> sublist uri_open (w @ t)"
proof
  assume "sublist uri_open (w @ t)"
  then consider "sublist uri_open w" | "sublist uri_open t"
    | xs1 xs2 where "uri_open = xs1 @ xs2" "suffix xs1 w" "prefix xs2 t"
    unfolding sublist_append by blast
  then show False
  proof cases
    case 1
    with assms(1) show False by simp
  next
    case 2
    then have "length uri_open \<le> length t"
      by (rule sublist_length_le)
    with assms(3) show False by simp
  next
    case 3
    show False
    proof (cases xs2)
      case Nil
      with 3 have "suffix uri_open w" by simp
      then have "sublist uri_open w" by (rule suffix_imp_sublist)
      with assms(1) show False by simp
    next
      case (Cons c cs)
      with 3(3) obtain t' where "t = c # t'"
        by (cases t) auto
      with assms(2) have "isLineTerminator c" by simp
      moreover have "c \<in> set uri_open"
        using 3(1) Cons by (metis in_set_conv_decomp)
      ultimately show False
        by (auto simp: uri_open_def isLineTerminator_def dquote_def)
    qed
  qed
qed

lemma no_uri_open_before_quote_free:
  assumes "\<not> sublist uri_open w" "quote_free t"
  shows "\<not> sublist uri_open (w @ t)"
proof
  assume "sublist uri_open (w @ t)"
  then consider "sublist uri_open w" | "sublist uri_open t"
    | xs1 xs2 where "uri_open = xs1 @ xs2" "suffix xs1 w" "prefix xs2 t"
    unfolding sublist_append by blast
  then show False
  proof cases
    case 1
    with assms(1) show False by simp
  next
    case 2
    then have "set uri_open \<subseteq> set t"
      by (rule set_mono_sublist)
    then show False
      using assms(2) by (auto simp: uri_open_def quote_free_set)
  next
    case 3
    show False
    proof (cases "xs2 = []")
      case True
      with 3 have "suffix uri_open w" by simp
      then have "sublist uri_open w" by (rule suffix_imp_sublist)
      with assms(1) show False by simp
    next
      case False
      then have "last xs2 = dquote"
        using 3(1) by (metis last_appendR last_uri_open(2))
      then have "dquote \<in> set xs2"
        using False by (metis last_in_set)
      then have "dquote \<in> set t"
        using 3(3) by (meson set_mono_prefix subsetD)
      with assms(2) show False
        by (simp add: quote_free_set)
    qed
  qed
qed

lemma uri_proxied_plain:
  assumes "\<not> sublist uri_open w" "line_end post"
  shows "uri_proxied (w @ post) = w @ uri_proxied post"
proof -
  have "line_end (take 4 post)"
    using assms(2) by (cases post) simp_all
  then have "\<not> sublist uri_open (w @ take 4 post)"
    using assms(1) by (intro no_uri_open_before_line_end) simp_all
  then show ?thesis
    by (rule uri_proxied_skip)
qed

lemma uri_proxied_line_end:
  assumes "line_end post"
  shows "line_end (uri_proxied post)"
proof (cases post)
  case Nil
  then show ?thesis by simp
next
  case (Cons t r)
  then have "isLineTerminator t"
    using assms by simp
  then have "\<not> prefix uri_open (t # r)"
    by (auto simp: uri_open_def isLineTerminator_def)
  then have "uri_proxied (t # r) = t # uri_proxied r"
    by (simp add: uri_attribute_no_prefix uri_proxied_no_match)
  then show ?thesis
    using Cons \<open>isLineTerminator t\<close> by simp
qed

lemma first_quote_unique:
  "quote_free t \<Longrightarrow> quote_free t' \<Longrightarrow> t @ dquote # r = t' @ dquote # r' \<Longrightarrow> t = t'"
proof (induction t arbitrary: t')
  case Nil
  then show ?case by (cases t') auto
next
  case (Cons c t)
  then show ?case by (cases t') auto
qed

lemma mp4_not_uri [simp]: "\<not> suffix ''.mp4'' (s @ ''URI='')"
proof
  assume "suffix ''.mp4'' (s @ ''URI='')"
  then have "last (s @ ''URI='') = last ''.mp4''"
    by (auto simp: suffix_def)
  then show False by simp
qed

lemma before_line_quote:
  assumes "k \<noteq> 0" "k \<le> length v" "quote_free (take (k - 1) v)"
    "suffix (''.mp4'' @ [dquote]) (u @ take k v)"
  obtains t rest where "v = t @ dquote # rest" "k = Suc (length t)" "quote_free t"
    "suffix ''.mp4'' (u @ t)"
proof -
  obtain j where j: "k = Suc j"
    using assms(1) by (cases k) auto
  then have jv: "j < length v"
    using assms(2) by simp
  then have "take k v = take j v @ [v ! j]"
    unfolding j by (rule take_Suc_conv_app_nth)
  then have "suffix (''.mp4'' @ [dquote]) ((u @ take j v) @ [v ! j])"
    using assms(4) by simp
  then have q: "dquote = v ! j" "suffix ''.mp4'' (u @ take j v)"
    unfolding snoc_suffix_snoc by blast+
  have "v = take j v @ v ! j # drop (Suc j) v"
    using jv by (rule id_take_nth_drop)
  then have "v = take j v @ dquote # drop (Suc j) v"
    using q(1) by simp
  moreover have "k = Suc (length (take j v))"
    using j jv by simp
  moreover have "quote_free (take j v)"
    using assms(3) j by simp
  ultimately show thesis
    using q(2) by (rule that)
qed

subsection \<open>The line at an index\<close>

lemma bol_append_terminated: "isLineTerminator t \<Longrightarrow> bol r \<Longrightarrow> bol (l @ t # r)"
  by (auto simp: bol_def)

lemma jslines_single_line: "l \<in> set (jslines s) \<Longrightarrow> single_line l"
  by (induction s arbitrary: l rule: lines_induct) (auto simp: jslines_line jslines_next)

lemma length_jslines: "length (jslines s) = Suc (nlt s)"
  by (induction s rule: lines_induct) (simp_all add: jslines_line jslines_next nlt_single_line)

lemma jslines_nth_context:
  assumes "single_line l" "line_end post"
  shows "bol pre \<Longrightarrow> jslines (pre @ l @ post) ! nlt pre = l"
proof (induction pre rule: lines_induct)
  case (last_line pre)
  then have "pre = []"
    by (cases pre rule: rev_cases) (auto simp: bol_def)
  then show ?case
    using assms by (cases post) (simp_all add: jslines_line jslines_next)
next
  case (more_lines l0 t r)
  have "bol r"
    using more_lines.prems more_lines.hyps(2) by (cases "r = []") (simp_all add: bol_def)
  then have "jslines (r @ l @ post) ! nlt r = l"
    by (rule more_lines.IH)
  moreover have "jslines ((l0 @ t # r) @ l @ post) = l0 # jslines (r @ l @ post)"
    using more_lines.hyps jslines_next [of l0 t "r @ l @ post"] by simp
  ultimately show ?case
    using more_lines.hyps by (simp add: nlt_single_line)
qed

lemma jslines_nth_split:
  "i < length (jslines s) \<Longrightarrow>
   \<exists>pre post. s = pre @ (jslines s ! i) @ post \<and> bol pre \<and> line_end post \<and> nlt pre = i"
proof (induction s arbitrary: i rule: lines_induct)
  case (last_line l)
  then have "l = [] @ (jslines l ! i) @ [] \<and> bol [] \<and> line_end [] \<and> nlt [] = i"
    by (simp add: jslines_line)
  then show ?case by blast
next
  case (more_lines l t r)
  show ?case
  proof (cases i)
    case 0
    have "l @ t # r = [] @ (jslines (l @ t # r) ! 0) @ (t # r) \<and> bol [] \<and> line_end (t # r) \<and> nlt [] = 0"
      using more_lines.hyps by (simp add: jslines_next)
    then show ?thesis
      unfolding 0 by blast
  next
    case (Suc j)
    then have "j < length (jslines r)"
      using more_lines.prems more_lines.hyps by (simp add: jslines_next)
    then obtain pre post where r: "r = pre @ (jslines r ! j) @ post" "bol pre" "line_end post" "nlt pre = j"
      using more_lines.IH by blast
    have "jslines (l @ t # r) ! i = jslines r ! j"
      using Suc more_lines.hyps by (simp add: jslines_next)
    then have "l @ t # r = (l @ t # pre) @ (jslines (l @ t # r) ! i) @ post"
      using r(1) by simp
    moreover have "bol (l @ t # pre)"
      using more_lines.hyps(2) r(2) by (rule bol_append_terminated)
    moreover have "nlt (l @ t # pre) = i"
      using more_lines.hyps r(4) Suc by (simp add: nlt_single_line)
    ultimately show ?thesis
      using r(3) by blast
  qed
qed

lemma jslines_nth_single_line: "i < length (jslines s) \<Longrightarrow> single_line (jslines s ! i)"
  using jslines_single_line nth_mem by blast

subsection \<open>Replacement only inserts, and never a separator\<close>

lemma inserted_refl [simp]: "inserted sep x x"
  by (simp add: inserted_def)

lemma inserted_trans: "inserted sep x y \<Longrightarrow> inserted sep y z \<Longrightarrow> inserted sep x z"
  unfolding inserted_def by (metis subseq_order.trans)

lemma inserted_append:
  "inserted sep a a' \<Longrightarrow> inserted sep b b' \<Longrightarrow> inserted sep (a @ b) (a' @ b')"
  by (simp add: inserted_def list_emb_append_mono)

lemma inserted_Cons: "inserted sep x y \<Longrightarrow> inserted sep (c # x) (c # y)"
  by (simp add: inserted_def)

lemma inserted_prepend:
  assumes "\<forall>c \<in> set p. \<not> sep c"
  shows "inserted sep x (p @ x)"
proof -
  have "filter sep p = []"
    using assms by (simp add: filter_empty_conv)
  then show ?thesis
    by (simp add: inserted_def list_emb_append2)
qed

lemma inserted_split:
  "subseq x y \<Longrightarrow> filter sep y = filter sep x \<Longrightarrow>
   list_all2 subseq (split_when sep x) (split_when sep y)"
proof (induction rule: list_emb.induct)
  case (list_emb_Nil ys)
  then have "\<forall>c \<in> set ys. \<not> sep c"
    by (simp add: filter_empty_conv)
  then have "split_when sep ys = [ys]"
    by (rule split_when_line)
  then show ?case by simp
next
  case (list_emb_Cons xs ys c)
  have "length (filter sep xs) \<le> length (filter sep ys)"
    using list_emb_Cons.hyps by (intro list_emb_length [of "(=)"] subseq_filter)
  moreover have "length (filter sep xs) = Suc (length (filter sep ys))" if "sep c"
    using list_emb_Cons.prems that by (metis filter.simps(2) length_Cons)
  ultimately have c: "\<not> sep c"
    by auto
  then have "list_all2 subseq (split_when sep xs) (split_when sep ys)"
    using list_emb_Cons by simp
  then show ?case
    using c by (cases "split_when sep xs"; cases "split_when sep ys") auto
next
  case (list_emb_Cons2 c c' xs ys)
  then have "list_all2 subseq (split_when sep xs) (split_when sep ys)"
    by (auto split: if_splits)
  then show ?case
    using list_emb_Cons2.hyps(1)
    by (cases "split_when sep xs"; cases "split_when sep ys") auto
qed

lemma inserted_lines:
  "inserted sep x y \<Longrightarrow> list_all2 subseq (split_when sep x) (split_when sep y)"
  unfolding inserted_def using inserted_split by blast

lemma replace_all_inserted:
  assumes m: "\<And>prev s g n. m prev s = Some (g, n) \<Longrightarrow>
      0 < n \<and> n \<le> length s \<and> inserted sep (take n s) (rep g)"
  shows "inserted sep s (replace_all m rep prev s)"
proof (induction s arbitrary: prev rule: length_induct)
  case (1 s)
  show ?case
  proof (cases s)
    case Nil
    have "m prev [] = None"
    proof (cases "m prev []")
      case (Some gn)
      then show ?thesis
        using m [of prev "[]" "fst gn" "snd gn"] by auto
    qed simp
    then show ?thesis
      using Nil by simp
  next
    case (Cons c cs)
    show ?thesis
    proof (cases "m prev (c # cs)")
      case None
      have "inserted sep cs (replace_all m rep (Some c) cs)"
        using 1 Cons by simp
      then show ?thesis
        using None Cons by (simp add: inserted_Cons)
    next
      case (Some gn)
      obtain g n where gn: "gn = (g, n)"
        by (cases gn)
      then have n: "0 < n" "n \<le> length (c # cs)" "inserted sep (take n (c # cs)) (rep g)"
        using m [of prev "c # cs" g n] Some by simp_all
      let ?rest = "drop (n - 1) cs"
      have rest: "drop n (c # cs) = ?rest"
        using n(1) by (cases n) simp_all
      have "inserted sep ?rest (replace_all m rep (Some (last (take n (c # cs)))) ?rest)"
        using 1 Cons by simp
      with n(3) have "inserted sep (take n (c # cs) @ ?rest)
          (rep g @ replace_all m rep (Some (last (take n (c # cs)))) ?rest)"
        by (rule inserted_append)
      moreover have "take n (c # cs) @ ?rest = c # cs"
        using rest by (metis append_take_drop_id)
      ultimately show ?thesis
        using Some gn n(1) Cons by simp
    qed
  qed
qed

lemma relative_line_Some:
  assumes "single_line ext" "relative_line ext prev s = Some (g, n)"
  shows "0 < n \<and> n \<le> length s \<and> g = take n s"
proof -
  let ?l = "takeWhile (\<lambda>c. \<not> isLineTerminator c) s"
  let ?r = "dropWhile (\<lambda>c. \<not> isLineTerminator c) s"
  have s: "s = ?l @ ?r"
    by simp
  have l: "single_line ?l"
    by (auto simp: single_line_set dest: set_takeWhileD)
  have r: "line_end ?r"
    by (induction s) auto
  have "relative_line ext prev (?l @ ?r) =
      (if line_start prev \<and> \<not> absolute_or_comment ?l \<and> suffix ext ?l \<and> length ext < length ?l
       then Some (?l, length ?l) else None)"
    using l r assms(1) by (rule relative_line_eq)
  then have "g = ?l \<and> n = length ?l \<and> length ext < length ?l"
    using assms(2) by (simp split: if_splits)
  then show ?thesis
    using s by (metis append_eq_conv_conj length_append le_add1 less_nat_zero_code neq0_conv)
qed

lemma uri_attribute_Some:
  assumes "uri_attribute prev s = Some (g, n)"
  shows "0 < n \<and> n \<le> length s \<and> take n s = uri_open @ g @ [dquote]"
proof -
  have "prefix uri_open s"
  proof (rule ccontr)
    assume "\<not> prefix uri_open s"
    then have "uri_attribute prev s = None"
      by (rule uri_attribute_no_prefix)
    with assms show False by simp
  qed
  then obtain s' where s': "s = uri_open @ s'"
    by (auto simp: prefix_def)
  obtain run rest where rr: "s' = run @ rest" "quote_free run" "quote_next rest"
    by (rule run_cases)
  have "uri_attribute prev (uri_open @ run @ rest) = Some (g, n)"
    using assms s' rr(1) by simp
  then have m: "rest \<noteq> [] \<and> g = run \<and> n = length run + 6"
    unfolding uri_attribute_run [OF rr(2,3)] by (auto split: if_splits)
  then obtain w where "rest = dquote # w"
    using rr(3) by (cases rest) auto
  then have "s = (uri_open @ g @ [dquote]) @ w" "length (uri_open @ g @ [dquote]) = n"
    using s' rr(1) m by simp_all
  then show ?thesis
    by (metis append_eq_conv_conj le_add1 length_append length_greater_0_conv append_is_Nil_conv not_Cons_self2)
qed

subsection \<open>The rewrite keeps the lines\<close>

lemma relative_line_inserted:
  assumes "single_line ext" "\<forall>c \<in> set pre. \<not> sep c"
  shows "inserted sep s (replace_all (relative_line ext) (\<lambda>g. pre @ g) prev s)"
proof (rule replace_all_inserted)
  fix prev s g n
  assume "relative_line ext prev s = Some (g, n)"
  then have "0 < n \<and> n \<le> length s \<and> g = take n s"
    using assms(1) by (intro relative_line_Some)
  then show "0 < n \<and> n \<le> length s \<and> inserted sep (take n s) (pre @ g)"
    using assms(2) by (simp add: inserted_prepend)
qed

lemma uri_attribute_inserted:
  assumes "\<forall>c \<in> set ''/api/mp4/''. \<not> sep c"
  shows "inserted sep s (uri_proxied s)"
  unfolding uri_proxied_def
proof (rule replace_all_inserted)
  fix prev s g n
  assume "uri_attribute prev s = Some (g, n)"
  then have n: "0 < n \<and> n \<le> length s \<and> take n s = uri_open @ g @ [dquote]"
    by (rule uri_attribute_Some)
  have "inserted sep (g @ [dquote]) (''/api/mp4/'' @ g @ [dquote])"
    using assms by (rule inserted_prepend)
  then have "inserted sep (uri_open @ g @ [dquote]) (uri_open @ ''/api/mp4/'' @ g @ [dquote])"
    using inserted_append [of sep uri_open uri_open "g @ [dquote]" "''/api/mp4/'' @ g @ [dquote]"]
    by simp
  then show "0 < n \<and> n \<le> length s \<and>
      inserted sep (take n s) (''URI='' @ [dquote] @ ''/api/mp4/'' @ g @ [dquote])"
    using n by (simp add: uri_open_def)
qed

lemma modifiedContent_inserted:
  assumes "\<forall>c \<in> set (upstream_videos @ ''/api/mp4/''). \<not> sep c"
  shows "inserted sep s (modifiedContent s)"
proof -
  have 1: "inserted sep s (segments_absolute s)"
    unfolding segments_absolute_def using assms
    by (intro relative_line_inserted) (simp_all add: isLineTerminator_def)
  have 2: "inserted sep (segments_absolute s) (uri_proxied (segments_absolute s))"
    using assms by (intro uri_attribute_inserted) simp
  have 3: "inserted sep (uri_proxied (segments_absolute s)) (modifiedContent s)"
    unfolding modifiedContent_def mp4_proxied_def using assms
    by (intro relative_line_inserted) (simp_all add: isLineTerminator_def)
  show ?thesis
    using 1 2 3 inserted_trans by blast
qed

lemma newline_not_inserted: "\<forall>c \<in> set (upstream_videos @ ''/api/mp4/''). \<not> (c = CHR 0x0A)"
  by (simp add: upstream_videos_def)

lemma terminator_not_inserted: "\<forall>c \<in> set (upstream_videos @ ''/api/mp4/''). \<not> isLineTerminator c"
  by (simp add: upstream_videos_def isLineTerminator_def)

text \<open>C8: for every manifest text, the rewritten text has as many lines as the input, and its lines
  are those of the input in the same order, each with at most some characters inserted. This holds
  for the lines that \<open>split('\n')\<close> would count and for the lines of the \<open>m\<close> flag.\<close>

theorem rewrite_keeps_lines:
  "length (split_newline (modifiedContent m3u8Content)) = length (split_newline m3u8Content) \<and>
   list_all2 subseq (split_newline m3u8Content) (split_newline (modifiedContent m3u8Content)) \<and>
   length (jslines (modifiedContent m3u8Content)) = length (jslines m3u8Content) \<and>
   list_all2 subseq (jslines m3u8Content) (jslines (modifiedContent m3u8Content))"
proof -
  have 1: "list_all2 subseq (split_newline m3u8Content) (split_newline (modifiedContent m3u8Content))"
    unfolding split_newline_def
    using modifiedContent_inserted [OF newline_not_inserted] by (rule inserted_lines)
  have 2: "list_all2 subseq (jslines m3u8Content) (jslines (modifiedContent m3u8Content))"
    unfolding jslines_def
    using modifiedContent_inserted [OF terminator_not_inserted] by (rule inserted_lines)
  show ?thesis
    using 1 2 by (simp add: list_all2_lengthD)
qed

lemma nlt_uri_proxied: "nlt (uri_proxied s) = nlt s"
proof -
  have "inserted isLineTerminator s (uri_proxied s)"
    by (rule uri_attribute_inserted) (simp add: isLineTerminator_def)
  then show ?thesis
    by (simp add: inserted_def nlt_def)
qed

lemma length_jslines_uri_proxied: "length (jslines (uri_proxied s)) = length (jslines s)"
  by (simp add: length_jslines nlt_uri_proxied)

subsection \<open>One line through the three replacements\<close>

lemma prefix_before_char:
  assumes "c \<notin> set p"
  shows "prefix p (a @ c # r) \<longleftrightarrow> prefix p a"
proof
  assume "prefix p (a @ c # r)"
  then consider "prefix p a" | us where "p = a @ us" "prefix us (c # r)"
    unfolding prefix_append by blast
  then show "prefix p a"
  proof cases
    case 1
    then show ?thesis .
  next
    case 2
    have "us = []"
    proof (cases us)
      case Nil
      then show ?thesis .
    next
      case (Cons d ds)
      then have "d = c"
        using 2(2) by simp
      then have "c \<in> set p"
        using 2(1) Cons by simp
      then show ?thesis
        using assms by simp
    qed
    then show ?thesis
      using 2(1) by simp
  qed
next
  assume "prefix p a"
  then show "prefix p (a @ c # r)"
    by (rule prefix_prefix)
qed

lemma suffix_after_char:
  assumes "c \<notin> set p"
  shows "suffix p (a @ c # b) \<longleftrightarrow> suffix p b"
proof -
  have "suffix p (a @ c # b) \<longleftrightarrow> prefix (rev p) (rev b @ c # rev a)"
    by (simp add: suffix_to_prefix)
  also have "\<dots> \<longleftrightarrow> prefix (rev p) (rev b)"
    using assms by (intro prefix_before_char) simp
  also have "\<dots> \<longleftrightarrow> suffix p b"
    by (simp add: suffix_to_prefix)
  finally show ?thesis .
qed

lemma sublist_after_prefix:
  assumes "p \<noteq> []" "hd p \<notin> set q"
  shows "sublist p (q @ l) \<longleftrightarrow> sublist p l"
  using assms(2)
proof (induction q)
  case Nil
  then show ?case by simp
next
  case (Cons c q)
  have "\<not> prefix p (c # q @ l)"
    using assms(1) Cons.prems by (cases p) auto
  then show ?case
    using Cons by (simp add: sublist_Cons_right)
qed

lemma uri_open_after_upstream:
  "sublist uri_open (upstream_videos @ l) \<longleftrightarrow> sublist uri_open l"
  by (rule sublist_after_prefix) (simp_all add: uri_open_def upstream_videos_def)

lemma single_line_rewritten_line:
  "single_line pre \<Longrightarrow> single_line l \<Longrightarrow> single_line (rewritten_line ext pre l)"
  by (simp add: rewritten_line_def)

lemma single_line_proxy_path: "single_line l \<Longrightarrow> single_line (rewritten_line ext ''/api/mp4/'' l)"
  by (intro single_line_rewritten_line single_line_literals)

lemma single_line_upstream: "single_line l \<Longrightarrow> single_line (rewritten_line ext upstream_videos l)"
  by (intro single_line_rewritten_line single_line_literals)

lemma jslines_segments_absolute:
  "jslines (segments_absolute s) = map (rewritten_line ''.ts'' upstream_videos) (jslines s)"
  unfolding segments_absolute_lines
  by (rule jslines_map_lines) (rule single_line_upstream)

lemma jslines_mp4_proxied:
  "jslines (mp4_proxied s) = map (rewritten_line ''.mp4'' ''/api/mp4/'') (jslines s)"
  unfolding mp4_proxied_lines
  by (rule jslines_map_lines) (rule single_line_proxy_path)

lemma modifiedContent_line:
  assumes "i < length (jslines s)"
  shows "jslines (modifiedContent s) ! i =
    rewritten_line ''.mp4'' ''/api/mp4/'' (jslines (uri_proxied (segments_absolute s)) ! i)"
proof -
  have "length (jslines (uri_proxied (segments_absolute s))) = length (jslines s)"
    by (simp add: length_jslines_uri_proxied jslines_segments_absolute)
  then show ?thesis
    using assms by (simp add: modifiedContent_def jslines_mp4_proxied)
qed

lemma segments_absolute_line:
  assumes "i < length (jslines s)"
  shows "i < length (jslines (segments_absolute s))"
    and "jslines (segments_absolute s) ! i = rewritten_line ''.ts'' upstream_videos (jslines s ! i)"
  using assms by (simp_all add: jslines_segments_absolute)

lemma absolute_upstream [simp]: "absolute_or_comment (upstream_videos @ l)"
  by (simp add: absolute_or_comment_def upstream_videos_def)

lemma ts_not_mp4: "suffix ''.ts'' l \<Longrightarrow> \<not> suffix ''.mp4'' l"
proof
  assume "suffix ''.ts'' l" "suffix ''.mp4'' l"
  then have "last l = CHR ''s''" "last l = CHR ''4''"
    by (auto simp: suffix_def)
  then show False by simp
qed

lemma rewritten_line_same:
  "absolute_or_comment l \<or> l = ext \<or> \<not> suffix ext l \<Longrightarrow> rewritten_line ext pre l = l"
  by (auto simp: rewritten_line_def)

subsection \<open>Rewriting twice\<close>

lemma subseq_uri_proxied: "subseq s (uri_proxied s)"
proof -
  have "inserted (\<lambda>c. False) s (uri_proxied s)"
    by (rule uri_attribute_inserted) simp
  then show ?thesis
    by (simp add: inserted_def)
qed

lemma subseq_mp4_proxied: "subseq s (mp4_proxied s)"
proof -
  have "inserted (\<lambda>c. False) s (mp4_proxied s)"
    unfolding mp4_proxied_def by (rule relative_line_inserted) (simp_all add: isLineTerminator_def)
  then show ?thesis
    by (simp add: inserted_def)
qed

lemma segments_absolute_twice: "segments_absolute (segments_absolute s) = segments_absolute s"
proof -
  let ?f = "rewritten_line ''.ts'' upstream_videos"
  have "?f (?f l) = ?f l" for l
    by (simp add: rewritten_line_def)
  then have "map_lines (\<lambda>l. ?f (?f l)) s = map_lines ?f s"
    by simp
  then show ?thesis
    unfolding segments_absolute_lines by (simp add: map_lines_compose [OF single_line_upstream])
qed

lemma only_segments_fixed:
  assumes "modifiedContent s = segments_absolute s"
  shows "uri_proxied (segments_absolute s) = segments_absolute s"
    and "mp4_proxied (segments_absolute s) = segments_absolute s"
proof -
  let ?y = "segments_absolute s"
  have "subseq (uri_proxied ?y) (mp4_proxied (uri_proxied ?y))"
    by (rule subseq_mp4_proxied)
  then have "subseq (uri_proxied ?y) ?y"
    using assms by (simp add: modifiedContent_def)
  then show 1: "uri_proxied ?y = ?y"
    using subseq_uri_proxied [of ?y] by (simp add: subseq_order.antisym)
  show "mp4_proxied ?y = ?y"
    using assms by (simp add: modifiedContent_def 1)
qed

lemma sublist_after_slash:
  assumes "q \<noteq> []" "last q \<notin> set p" "\<not> sublist p q"
  shows "sublist p (q @ l) \<longleftrightarrow> sublist p l"
proof
  assume "sublist p (q @ l)"
  then consider "sublist p l" | xs1 xs2 where "p = xs1 @ xs2" "suffix xs1 q" "prefix xs2 l"
    using assms(3) unfolding sublist_append by blast
  then show "sublist p l"
  proof cases
    case 1
    then show ?thesis .
  next
    case 2
    have "xs1 = []"
    proof (rule ccontr)
      assume "xs1 \<noteq> []"
      then have "last xs1 = last q"
        using 2(2) by (auto simp: suffix_def)
      moreover have "last xs1 \<in> set p"
        using \<open>xs1 \<noteq> []\<close> 2(1) by simp
      ultimately show False
        using assms(2) by simp
    qed
    then show ?thesis
      using 2(1,3) by (simp add: prefix_imp_sublist)
  qed
next
  assume "sublist p l"
  then show "sublist p (q @ l)"
    by (simp add: sublist_append)
qed

lemma mp4_after_upstream: "sublist ''.mp4'' (upstream_videos @ l) \<longleftrightarrow> sublist ''.mp4'' l"
  by (rule sublist_after_slash) (simp_all add: upstream_videos_def sublist_Cons_right)

lemma sublist_lines:
  assumes "sublist p (l @ t # r)" "single_line p" "isLineTerminator t"
  shows "sublist p l \<or> sublist p r"
proof -
  consider "sublist p l" | "sublist p (t # r)"
    | xs1 xs2 where "p = xs1 @ xs2" "suffix xs1 l" "prefix xs2 (t # r)"
    using assms(1) unfolding sublist_append by blast
  then show ?thesis
  proof cases
    case 1
    then show ?thesis by simp
  next
    case 2
    have "\<not> prefix p (t # r)" if "p \<noteq> []"
      using that assms(2,3) by (cases p) auto
    then show ?thesis
      using 2 by (cases "p = []") (auto simp: sublist_Cons_right)
  next
    case 3
    have "xs2 = []"
    proof (cases xs2)
      case Nil
      then show ?thesis .
    next
      case (Cons c cs)
      then have "c = t"
        using 3(3) by simp
      then have "t \<in> set p"
        using 3(1) Cons by simp
      then show ?thesis
        using assms(2,3) by (simp add: single_line_set)
    qed
    then show ?thesis
      using 3(1,2) by (simp add: suffix_imp_sublist)
  qed
qed

lemma no_mp4_in_lines:
  assumes "\<not> sublist ''.mp4'' (l @ t # r)"
  shows "\<not> sublist ''.mp4'' l" "\<not> sublist ''.mp4'' r"
  using assms by (simp_all add: sublist_append sublist_Cons_right)

lemma no_mp4_segments_absolute:
  "\<not> sublist ''.mp4'' s \<Longrightarrow> \<not> sublist ''.mp4'' (segments_absolute s)"
  unfolding segments_absolute_lines
proof (induction s rule: lines_induct)
  case (last_line l)
  then show ?case
    by (simp add: map_lines_line rewritten_line_def mp4_after_upstream)
next
  case (more_lines l t r)
  let ?f = "rewritten_line ''.ts'' upstream_videos"
  have l: "\<not> sublist ''.mp4'' (?f l)"
    using no_mp4_in_lines(1) [OF more_lines.prems] by (simp add: rewritten_line_def mp4_after_upstream)
  have r: "\<not> sublist ''.mp4'' (map_lines ?f r)"
    using no_mp4_in_lines(2) [OF more_lines.prems] by (rule more_lines.IH)
  have "\<not> sublist ''.mp4'' (?f l @ t # map_lines ?f r)"
    using l r sublist_lines [OF _ single_line_literals(5) more_lines.hyps(2)] by blast
  then show ?case
    by (simp add: map_lines_next more_lines.hyps)
qed

lemma no_mp4_uri_proxied: "\<not> sublist ''.mp4'' s \<Longrightarrow> uri_proxied s = s"
proof (induction s)
  case Nil
  then show ?case by simp
next
  case (Cons c cs)
  have "uri_attribute None (c # cs) = None"
  proof (rule ccontr)
    assume "uri_attribute None (c # cs) \<noteq> None"
    then obtain gn where "uri_attribute None (c # cs) = Some gn"
      by blast
    then obtain g w where g: "c # cs = uri_open @ g @ dquote # w" "suffix ''.mp4'' g"
      using uri_attribute_SomeD by blast
    have "sublist ''.mp4'' g"
      using g(2) by (rule suffix_imp_sublist)
    then have "sublist ''.mp4'' (uri_open @ g @ dquote # w)"
      by (simp add: sublist_append)
    then show False
      using Cons.prems g(1) by simp
  qed
  moreover have "\<not> sublist ''.mp4'' cs"
    using Cons.prems by (simp add: sublist_Cons_right)
  ultimately show ?case
    by (simp add: uri_proxied_no_match Cons.IH)
qed

lemma no_mp4_mp4_proxied: "\<not> sublist ''.mp4'' s \<Longrightarrow> mp4_proxied s = s"
  unfolding mp4_proxied_lines
proof (induction s rule: lines_induct)
  case (last_line l)
  then have "\<not> suffix ''.mp4'' l"
    using suffix_imp_sublist by blast
  then show ?case
    using last_line by (simp add: map_lines_line rewritten_line_same)
next
  case (more_lines l t r)
  have "\<not> suffix ''.mp4'' l"
    using no_mp4_in_lines(1) [OF more_lines.prems] suffix_imp_sublist by blast
  then have "rewritten_line ''.mp4'' ''/api/mp4/'' l = l"
    by (simp add: rewritten_line_same)
  then show ?case
    using more_lines.IH [OF no_mp4_in_lines(2) [OF more_lines.prems]]
    by (simp add: map_lines_next more_lines.hyps)
qed

lemma no_mp4_only_segments:
  assumes "\<not> sublist ''.mp4'' s"
  shows "modifiedContent s = segments_absolute s"
proof -
  have "\<not> sublist ''.mp4'' (segments_absolute s)"
    using assms by (rule no_mp4_segments_absolute)
  then show ?thesis
    by (simp add: modifiedContent_def no_mp4_uri_proxied no_mp4_mp4_proxied)
qed

text \<open>C1: rewriting twice gives what rewriting once gives, for every manifest text in which the
  rewrite proxies no container path, that is, where all it does is what the first replacement
  does (make segment lines absolute); so it is for every text in which \<open>.mp4\<close> does not occur.\<close>

theorem rewrite_twice:
  "(modifiedContent x = segments_absolute x \<longrightarrow> modifiedContent (modifiedContent x) = modifiedContent x) \<and>
   (\<not> sublist ''.mp4'' x \<longrightarrow> modifiedContent (modifiedContent x) = modifiedContent x)"
proof -
  have 1: "modifiedContent (modifiedContent x) = modifiedContent x"
    if "modifiedContent x = segments_absolute x"
  proof -
    have "modifiedContent (segments_absolute x) = segments_absolute x"
      by (simp add: modifiedContent_def segments_absolute_twice only_segments_fixed [OF that])
    then show ?thesis
      by (simp add: that)
  qed
  then show ?thesis
    using no_mp4_only_segments by blast
qed

theorem rewrite_twice_witness:
  "modifiedContent (''segment1.ts'' @ CHR 0x0A # ''https://cdn.example/seg2.ts'') =
     segments_absolute (''segment1.ts'' @ CHR 0x0A # ''https://cdn.example/seg2.ts'') \<and>
   \<not> sublist ''.mp4'' (''segment1.ts'' @ CHR 0x0A # ''https://cdn.example/seg2.ts'') \<and>
   modifiedContent (modifiedContent (''segment1.ts'' @ CHR 0x0A # ''https://cdn.example/seg2.ts'')) =
     modifiedContent (''segment1.ts'' @ CHR 0x0A # ''https://cdn.example/seg2.ts'')"
  using rewrite_twice [of "''segment1.ts'' @ CHR 0x0A # ''https://cdn.example/seg2.ts''"]
  by code_simp

theorem rewrite_twice_counterexample:
  "modifiedContent ''part0.mp4'' = ''/api/mp4/part0.mp4'' \<and>
   modifiedContent (modifiedContent ''part0.mp4'') = ''/api/mp4//api/mp4/part0.mp4'' \<and>
   modifiedContent (modifiedContent ''part0.mp4'') \<noteq> modifiedContent ''part0.mp4'' \<and>
   modifiedContent (modifiedContent (''URI='' @ [dquote] @ ''init.mp4'' @ [dquote])) =
     ''URI='' @ [dquote] @ ''/api/mp4//api/mp4/init.mp4'' @ [dquote]"
  by code_simp

subsection \<open>The scan for URI attributes, in parts\<close>

lemma uri_proxied_append:
  assumes "\<And>s. s \<noteq> [] \<Longrightarrow> suffix s a \<Longrightarrow> uri_attribute None (s @ b) = uri_attribute None s"
  shows "uri_proxied (a @ b) = uri_proxied a @ uri_proxied b"
  using assms
proof (induction a rule: length_induct)
  case (1 a)
  show ?case
  proof (cases a)
    case Nil
    then show ?thesis by simp
  next
    case (Cons c a')
    have here: "uri_attribute None (a @ b) = uri_attribute None a"
      using Cons by (intro 1(2)) simp_all
    show ?thesis
    proof (cases "uri_attribute None a")
      case None
      have "uri_proxied (a' @ b) = uri_proxied a' @ uri_proxied b"
      proof (rule 1(1) [rule_format])
        show "length a' < length a"
          using Cons by simp
        show "uri_attribute None (s @ b) = uri_attribute None s" if "s \<noteq> []" "suffix s a'" for s
          using that Cons by (intro 1(2)) (simp_all add: suffix_ConsI)
      qed
      moreover have "uri_proxied (c # a') = c # uri_proxied a'"
        using None Cons by (intro uri_proxied_no_match) simp
      moreover have "uri_proxied (c # a' @ b) = c # uri_proxied (a' @ b)"
        using None here Cons by (intro uri_proxied_no_match) simp
      ultimately show ?thesis
        using Cons by simp
    next
      case (Some gn)
      then obtain g w where a: "a = uri_open @ g @ dquote # w"
        and g: "quote_free g" "suffix ''.mp4'' g" "4 < length g"
        using uri_attribute_SomeD by blast
      have "uri_proxied (w @ b) = uri_proxied w @ uri_proxied b"
      proof (rule 1(1) [rule_format])
        show "length w < length a"
          using a by simp
        have w: "suffix w a"
          unfolding a by (rule suffixI [of _ "uri_open @ g @ [dquote]"]) simp
        show "uri_attribute None (s @ b) = uri_attribute None s" if "s \<noteq> []" "suffix s w" for s
          using that w by (intro 1(2)) (auto intro: suffix_order.trans)
      qed
      moreover have "uri_proxied a = proxied_uri g @ uri_proxied w"
        unfolding a using g by (rule uri_proxied_match)
      moreover have "uri_proxied (uri_open @ g @ dquote # (w @ b)) = proxied_uri g @ uri_proxied (w @ b)"
        using g by (rule uri_proxied_match)
      ultimately show ?thesis
        by (simp add: a)
    qed
  qed
qed

lemma uri_attribute_closed:
  assumes "quote_free run"
  shows "uri_attribute None ((uri_open @ run @ dquote # rest) @ b) =
    uri_attribute None (uri_open @ run @ dquote # rest)"
  using uri_attribute_run [OF assms, of "dquote # rest @ b" None]
    uri_attribute_run [OF assms, of "dquote # rest" None] by simp

lemma prefix_uri_open_append:
  assumes "prefix uri_open (s @ b)" "\<not> prefix uri_open s" "s \<noteq> []"
  obtains us where "uri_open = s @ us" "us \<noteq> []" "prefix us b" "hd us \<in> set (''RI='' @ [dquote])"
proof -
  obtain us where us: "uri_open = s @ us" "prefix us b"
    using assms(1,2) unfolding prefix_append by blast
  have 1: "us \<noteq> []"
    using us(1) assms(2) by auto
  have "tl uri_open = tl s @ us"
    using us(1) assms(3) by (metis tl_append2)
  then have "hd us \<in> set (tl uri_open)"
    using 1 by simp
  then have "hd us \<in> set (''RI='' @ [dquote])"
    by (simp add: uri_open_def)
  then show ?thesis
    using us 1 that by blast
qed

lemma uri_attribute_before_attribute:
  assumes "s \<noteq> []"
  shows "uri_attribute None (s @ uri_open @ r) = uri_attribute None s"
proof (cases "prefix uri_open s")
  case True
  then obtain s2 where s: "s = uri_open @ s2"
    by (auto simp: prefix_def)
  obtain run rest where s2: "s2 = run @ rest" "quote_free run" "quote_next rest"
    by (rule run_cases)
  show ?thesis
  proof (cases rest)
    case Nil
    have "quote_free (run @ ''URI='')"
      using s2(2) by (simp add: dquote_def)
    then have "uri_attribute None (uri_open @ (run @ ''URI='') @ dquote # r) =
        (if suffix ''.mp4'' (run @ ''URI='') \<and> 4 < length (run @ ''URI='') \<and> dquote # r \<noteq> []
         then Some (run @ ''URI='', length (run @ ''URI='') + 6) else None)"
      by (intro uri_attribute_run) simp_all
    then have "uri_attribute None (uri_open @ (run @ ''URI='') @ dquote # r) = None"
      using mp4_not_uri [of run] by (simp del: mp4_not_uri)
    moreover have "uri_attribute None (uri_open @ run @ []) = None"
      using s2(2) uri_attribute_run [of run "[]" None] by simp
    ultimately show ?thesis
      using s s2(1) Nil by (simp add: uri_open_def)
  next
    case (Cons q rest')
    then have "q = dquote"
      using s2(3) by simp
    then show ?thesis
      using uri_attribute_closed [OF s2(2), of rest' "uri_open @ r"] s s2(1) Cons by simp
  qed
next
  case False
  have "\<not> prefix uri_open (s @ uri_open @ r)"
  proof
    assume "prefix uri_open (s @ uri_open @ r)"
    then obtain us where us: "us \<noteq> []" "prefix us (uri_open @ r)" "hd us \<in> set (''RI='' @ [dquote])"
      using False assms by (rule prefix_uri_open_append)
    have "hd us = CHR ''U''"
      using us(1,2) by (cases us) (auto simp: uri_open_def)
    then show False
      using us(3) by (simp add: dquote_def)
  qed
  then show ?thesis
    using False by (simp add: uri_attribute_no_prefix)
qed

lemma uri_proxied_attribute:
  assumes "quote_free g" "suffix ''.mp4'' g" "4 < length g"
  shows "uri_proxied (w @ uri_open @ g @ dquote # v) = uri_proxied w @ proxied_uri g @ uri_proxied v"
proof -
  have "uri_proxied (w @ uri_open @ g @ dquote # v) =
      uri_proxied w @ uri_proxied (uri_open @ g @ dquote # v)"
    by (rule uri_proxied_append) (rule uri_attribute_before_attribute)
  then show ?thesis
    using assms by (simp add: uri_proxied_match)
qed

subsection \<open>Lines with closed attributes\<close>

lemma closed_attributes_suffix: "closed_attributes l \<Longrightarrow> suffix s l \<Longrightarrow> closed_attributes s"
proof (induction l)
  case Nil
  then show ?case by simp
next
  case (Cons c l)
  then show ?case
    by (cases "s = c # l") (auto simp: suffix_Cons)
qed

lemma closed_attributes_head:
  assumes "closed_attributes s" "prefix uri_open s"
  obtains run rest where "s = uri_open @ run @ dquote # rest" "quote_free run"
proof -
  obtain s2 where s: "s = uri_open @ s2"
    using assms(2) by (auto simp: prefix_def)
  have "s \<noteq> []"
    using s by (simp add: uri_open_def)
  then have "\<not> quote_free (drop 5 s)"
    using assms by (cases s) auto
  then have n: "\<not> quote_free s2"
    using s by simp
  obtain run rest where r: "s2 = run @ rest" "quote_free run" "quote_next rest"
    by (rule run_cases)
  then have "rest \<noteq> []"
    using n by auto
  then obtain rest' where "rest = dquote # rest'"
    using r(3) by (cases rest) auto
  then show thesis
    using s r(1,2) that by simp
qed

lemma uri_attribute_line_end:
  assumes "closed_attributes s" "s \<noteq> []" "line_end b"
  shows "uri_attribute None (s @ b) = uri_attribute None s"
proof (cases "prefix uri_open s")
  case True
  with assms(1) obtain run rest where "s = uri_open @ run @ dquote # rest" "quote_free run"
    by (rule closed_attributes_head)
  then show ?thesis
    using uri_attribute_closed [of run rest b] by simp
next
  case False
  have "\<not> prefix uri_open (s @ b)"
  proof
    assume "prefix uri_open (s @ b)"
    then obtain us where us: "us \<noteq> []" "prefix us b" "hd us \<in> set (''RI='' @ [dquote])"
      using False assms(2) by (rule prefix_uri_open_append)
    then have "isLineTerminator (hd us)"
      using assms(3) by (cases us; cases b) auto
    then show False
      using us(3) by (auto simp: isLineTerminator_def dquote_def)
  qed
  then show ?thesis
    using False by (simp add: uri_attribute_no_prefix)
qed

lemma uri_proxied_closed:
  assumes "closed_attributes l" "line_end b"
  shows "uri_proxied (l @ b) = uri_proxied l @ uri_proxied b"
proof (rule uri_proxied_append)
  fix s
  assume "s \<noteq> []" "suffix s l"
  then show "uri_attribute None (s @ b) = uri_attribute None s"
    using assms closed_attributes_suffix by (intro uri_attribute_line_end) blast+
qed

lemma uri_proxied_unmatched:
  "(\<And>s. s \<noteq> [] \<Longrightarrow> suffix s a \<Longrightarrow> uri_attribute None s = None) \<Longrightarrow> uri_proxied a = a"
proof (induction a)
  case Nil
  then show ?case by simp
next
  case (Cons c a)
  have "uri_attribute None (c # a) = None"
    by (rule Cons.prems) simp_all
  moreover have "uri_proxied a = a"
    using Cons.prems by (intro Cons.IH) (simp add: suffix_ConsI)
  ultimately show ?case
    by (simp add: uri_proxied_no_match)
qed

lemma no_attribute_at_tail:
  assumes "quote_free t'" "t' \<noteq> ''URI=''"
  shows "uri_attribute None (t' @ dquote # z) = None"
proof -
  have "\<not> prefix uri_open (t' @ dquote # z)"
  proof
    assume "prefix uri_open (t' @ dquote # z)"
    then obtain z' where "t' @ dquote # z = ''URI='' @ dquote # z'"
      by (auto simp: prefix_def uri_open_def)
    moreover have "quote_free ''URI=''"
      by (simp add: dquote_def)
    ultimately have "t' = ''URI=''"
      using assms(1) first_quote_unique by blast
    then show False
      using assms(2) by simp
  qed
  then show ?thesis
    by (rule uri_attribute_no_prefix)
qed

lemma uri_proxied_tail:
  assumes "quote_free t" "\<not> suffix ''URI='' t"
  shows "uri_proxied (t @ dquote # s) = t @ dquote # uri_proxied s"
proof -
  have none: "uri_attribute None (s' @ z) = None"
    if ne: "s' \<noteq> []" and suf: "suffix s' (t @ [dquote])" for s' z
  proof -
    obtain t' where t': "s' = t' @ [dquote]" "suffix t' t"
      using ne suf by auto
    then have "quote_free t'" "t' \<noteq> ''URI=''"
      using assms by (auto simp: suffix_def)
    then have "uri_attribute None (t' @ dquote # z) = None"
      by (rule no_attribute_at_tail)
    then show ?thesis
      using t'(1) by simp
  qed
  have "uri_proxied ((t @ [dquote]) @ s) = uri_proxied (t @ [dquote]) @ uri_proxied s"
    using none [of _ s] none [of _ "[]"] by (intro uri_proxied_append) simp
  moreover have "uri_proxied (t @ [dquote]) = t @ [dquote]"
    using none [of _ "[]"] by (intro uri_proxied_unmatched) simp
  ultimately show ?thesis
    by simp
qed

lemma uri_proxied_quote_free: "quote_free l \<Longrightarrow> uri_proxied l = l"
  using uri_proxied_plain [of l "[]"] no_uri_open_before_quote_free [of "[]" l]
  by (simp add: uri_open_def)

lemma uri_proxied_line_closed:
  assumes "bol pre" "closed_attributes l" "line_end post"
  shows "\<exists>pre' post'. uri_proxied (pre @ l @ post) = pre' @ uri_proxied l @ post' \<and>
           bol pre' \<and> nlt pre' = nlt pre \<and> line_end post'"
proof -
  obtain pre' k where "before_line pre (l @ post) pre' k"
    using uri_proxied_before_line [OF assms(1)] by blast
  note r = before_lineD [OF this]
  show ?thesis
  proof (cases "k = 0")
    case True
    then have "uri_proxied (pre @ l @ post) = pre' @ uri_proxied l @ uri_proxied post"
      using r(1) uri_proxied_closed [OF assms(2,3)] by simp
    then show ?thesis
      using r(2,3) uri_proxied_line_end [OF assms(3)] by blast
  next
    case False
    then have k: "k \<le> length (l @ post)" "quote_free (take (k - 1) (l @ post))"
      "suffix (''.mp4'' @ [dquote]) (pre @ take k (l @ post))"
      using r(4) by auto
    from False k obtain t rest where t: "l @ post = t @ dquote # rest" "k = Suc (length t)"
      "quote_free t" "suffix ''.mp4'' (pre @ t)"
      by (rule before_line_quote)
    have tk: "take k (l @ post) = t @ [dquote]" "drop k (l @ post) = rest"
      using t(1,2) by simp_all
    have not_uri: "\<not> suffix ''URI='' t"
    proof
      assume "suffix ''URI='' t"
      then obtain t0 where "t = t0 @ ''URI=''"
        by (auto simp: suffix_def)
      then have "\<not> suffix ''.mp4'' (pre @ t)"
        using mp4_not_uri [of "pre @ t0"] by simp
      then show False
        using t(4) by simp
    qed
    show ?thesis
    proof (cases "length t < length l")
      case True
      then obtain l2 where l: "l = t @ dquote # l2" "rest = l2 @ post"
        using t(1) by (auto simp: append_eq_append_conv2 append_eq_Cons_conv)
      have "suffix l2 l"
        unfolding l(1) by (rule suffixI [of _ "t @ [dquote]"]) simp
      then have "closed_attributes l2"
        using assms(2) closed_attributes_suffix by blast
      then have "uri_proxied (l2 @ post) = uri_proxied l2 @ uri_proxied post"
        using assms(3) by (rule uri_proxied_closed)
      moreover have "uri_proxied l = t @ dquote # uri_proxied l2"
        unfolding l(1) using t(3) not_uri by (rule uri_proxied_tail)
      ultimately have "uri_proxied (pre @ l @ post) = pre' @ uri_proxied l @ uri_proxied post"
        using r(1) tk l(2) by simp
      then show ?thesis
        using r(2,3) uri_proxied_line_end [OF assms(3)] by blast
    next
      case False
      then obtain t2 where t2: "t = l @ t2" "post = t2 @ dquote # rest"
        using t(1) by (auto simp: append_eq_append_conv2 append_eq_Cons_conv)
      have "quote_free l"
        using t(3) t2(1) by simp
      then have "uri_proxied l = l"
        by (rule uri_proxied_quote_free)
      then have "uri_proxied (pre @ l @ post) = pre' @ uri_proxied l @ (t2 @ dquote # uri_proxied rest)"
        using r(1) tk t2(1) by simp
      moreover have "line_end (t2 @ dquote # uri_proxied rest)"
        using assms(3) t2(2) by (cases t2) simp_all
      ultimately show ?thesis
        using r(2,3) by blast
    qed
  qed
qed

lemma single_line_uri_proxied: "single_line l \<Longrightarrow> single_line (uri_proxied l)"
proof -
  assume "single_line l"
  then have "nlt (uri_proxied l) = 0"
    by (simp add: nlt_uri_proxied nlt_single_line)
  then show ?thesis
    by (simp add: nlt_def single_line_set filter_empty_conv)
qed

lemma uri_proxied_jslines_closed:
  assumes "i < length (jslines y)" "closed_attributes (jslines y ! i)"
  shows "jslines (uri_proxied y) ! i = uri_proxied (jslines y ! i)"
proof -
  let ?m = "jslines y ! i"
  obtain pre post where y: "y = pre @ ?m @ post" "bol pre" "line_end post" "nlt pre = i"
    using jslines_nth_split [OF assms(1)] by blast
  obtain pre' post' where r: "uri_proxied (pre @ ?m @ post) = pre' @ uri_proxied ?m @ post'"
      "bol pre'" "nlt pre' = nlt pre" "line_end post'"
    using uri_proxied_line_closed [OF y(2) assms(2) y(3)] by blast
  have "single_line (uri_proxied ?m)"
    using jslines_nth_single_line [OF assms(1)] by (rule single_line_uri_proxied)
  then have "jslines (pre' @ uri_proxied ?m @ post') ! nlt pre' = uri_proxied ?m"
    using r(4) r(2) by (rule jslines_nth_context)
  then show ?thesis
    using r(1,3) y(1,4) by simp
qed

subsection \<open>What the scan for URI attributes keeps of a line\<close>

lemma prefix_uri_proxied:
  "CHR ''U'' \<notin> set p \<Longrightarrow> prefix p (uri_proxied s) \<longleftrightarrow> prefix p s"
proof (induction s arbitrary: p rule: length_induct)
  case (1 s)
  show ?case
  proof (cases s)
    case Nil
    then show ?thesis by simp
  next
    case (Cons c cs)
    show ?thesis
    proof (cases "uri_attribute None s")
      case None
      then have out: "uri_proxied (c # cs) = c # uri_proxied cs"
        unfolding Cons by (rule uri_proxied_no_match)
      show ?thesis
      proof (cases p)
        case Nil
        then show ?thesis by simp
      next
        case p: (Cons a p')
        have "prefix p' (uri_proxied cs) \<longleftrightarrow> prefix p' cs"
          using 1(1) [rule_format, of cs p'] 1(2) Cons p by simp
        then show ?thesis
          by (simp add: out p Cons)
      qed
    next
      case (Some gn)
      then obtain g w where s: "s = uri_open @ g @ dquote # w"
        and g: "quote_free g" "suffix ''.mp4'' g" "4 < length g"
        using uri_attribute_SomeD by blast
      have "uri_proxied s = proxied_uri g @ uri_proxied w"
        unfolding s using g by (rule uri_proxied_match)
      then have "prefix p (uri_proxied s) \<longleftrightarrow> prefix p []"
        using prefix_before_char [OF 1(2), of "[]"] by (simp add: proxied_uri_def)
      moreover have "prefix p s \<longleftrightarrow> prefix p []"
        using prefix_before_char [OF 1(2), of "[]"] by (simp add: s uri_open_def)
      ultimately show ?thesis
        by simp
    qed
  qed
qed

lemma absolute_or_comment_uri_proxied:
  "absolute_or_comment (uri_proxied l) \<longleftrightarrow> absolute_or_comment l"
  by (simp add: absolute_or_comment_def prefix_uri_proxied)

lemma set_uri_proxied: "set s \<subseteq> set (uri_proxied s)"
proof
  fix x
  assume "x \<in> set s"
  with subseq_uri_proxied [of s] obtain y where "y \<in> set (uri_proxied s)" "x = y"
    by (rule list_emb_set)
  then show "x \<in> set (uri_proxied s)"
    by simp
qed

lemma uri_proxied_quote_free_iff: "quote_free (uri_proxied s) \<Longrightarrow> uri_proxied s = s"
proof -
  assume "quote_free (uri_proxied s)"
  then have "quote_free s"
    using set_uri_proxied [of s] by (auto simp: quote_free_set)
  then show ?thesis
    by (rule uri_proxied_quote_free)
qed

lemma suffix_uri_proxied:
  "dquote \<notin> set p \<Longrightarrow> suffix p (uri_proxied s) \<longleftrightarrow> suffix p s"
proof (induction s rule: length_induct)
  case (1 s)
  show ?case
  proof (cases s)
    case Nil
    then show ?thesis by simp
  next
    case (Cons c cs)
    show ?thesis
    proof (cases "uri_attribute None s")
      case None
      then have out: "uri_proxied (c # cs) = c # uri_proxied cs"
        unfolding Cons by (rule uri_proxied_no_match)
      have rest: "suffix p (uri_proxied cs) \<longleftrightarrow> suffix p cs"
        using 1 Cons by simp
      have "p = c # uri_proxied cs \<longleftrightarrow> p = c # cs"
      proof
        assume p: "p = c # uri_proxied cs"
        then have "quote_free (uri_proxied cs)"
          using 1(2) by (auto simp: quote_free_set)
        then have "uri_proxied cs = cs"
          by (rule uri_proxied_quote_free_iff)
        then show "p = c # cs"
          using p by simp
      next
        assume p: "p = c # cs"
        then have "quote_free cs"
          using 1(2) by (auto simp: quote_free_set)
        then have "uri_proxied cs = cs"
          by (rule uri_proxied_quote_free)
        then show "p = c # uri_proxied cs"
          using p by simp
      qed
      then show ?thesis
        using rest by (simp add: out Cons suffix_Cons)
    next
      case (Some gn)
      then obtain g w where s: "s = uri_open @ g @ dquote # w"
        and g: "quote_free g" "suffix ''.mp4'' g" "4 < length g"
        using uri_attribute_SomeD by blast
      have after: "suffix p (a @ dquote # x) \<longleftrightarrow> suffix p x" for a x
        using 1(2) by (rule suffix_after_char)
      have "uri_proxied s = (''URI='' @ [dquote] @ ''/api/mp4/'' @ g) @ dquote # uri_proxied w"
        unfolding s using uri_proxied_match [OF g, of w] by (simp add: proxied_uri_def)
      then have "suffix p (uri_proxied s) \<longleftrightarrow> suffix p (uri_proxied w)"
        by (simp only: after)
      also have "\<dots> \<longleftrightarrow> suffix p w"
        using 1 s by simp
      also have "\<dots> \<longleftrightarrow> suffix p ((uri_open @ g) @ dquote # w)"
        by (simp only: after)
      finally show ?thesis
        by (simp add: s)
    qed
  qed
qed

lemma length_uri_proxied: "4 < length (uri_proxied l) \<longleftrightarrow> 4 < length l"
proof
  assume "4 < length l"
  then show "4 < length (uri_proxied l)"
    using list_emb_length [OF subseq_uri_proxied, of l] by simp
next
  assume long: "4 < length (uri_proxied l)"
  show "4 < length l"
  proof (rule ccontr)
    assume "\<not> 4 < length l"
    then have "\<not> sublist uri_open l"
      using sublist_length_le [of uri_open l] by auto
    then have "uri_proxied l = l"
      using uri_proxied_plain [of l "[]"] by simp
    then show False
      using long \<open>\<not> 4 < length l\<close> by simp
  qed
qed

lemma closed_attributes_upstream:
  "closed_attributes l \<Longrightarrow> closed_attributes (upstream_videos @ l)"
proof -
  have gen: "closed_attributes (q @ l)" if "closed_attributes l" "CHR ''U'' \<notin> set q" for q
    using that by (induction q) (auto simp: uri_open_def)
  have "CHR ''U'' \<notin> set upstream_videos"
    by (simp add: upstream_videos_def)
  then show "closed_attributes l \<Longrightarrow> closed_attributes (upstream_videos @ l)"
    using gen by blast
qed

lemma uri_proxied_upstream: "uri_proxied (upstream_videos @ l) = upstream_videos @ uri_proxied l"
proof -
  have "\<not> sublist uri_open (take 4 l)"
    using sublist_length_le [of uri_open "take 4 l"] by auto
  then have "\<not> sublist uri_open (upstream_videos @ take 4 l)"
    by (simp add: uri_open_after_upstream)
  then show ?thesis
    by (rule uri_proxied_skip)
qed

lemma modifiedContent_closed_line:
  assumes i: "i < length (jslines s)" and closed: "closed_attributes (jslines s ! i)"
  shows "jslines (modifiedContent s) ! i =
    (if absolute_or_comment (jslines s ! i) then []
     else if suffix ''.ts'' (jslines s ! i) \<and> 3 < length (jslines s ! i) then upstream_videos
     else if suffix ''.mp4'' (jslines s ! i) \<and> 4 < length (jslines s ! i) then ''/api/mp4/''
     else []) @ uri_proxied (jslines s ! i)"
proof -
  let ?l = "jslines s ! i"
  let ?y = "segments_absolute s"
  define q where "q = (if \<not> absolute_or_comment ?l \<and> suffix ''.ts'' ?l \<and> 3 < length ?l
    then upstream_videos else [])"
  have y: "jslines ?y ! i = q @ ?l"
    by (simp add: segments_absolute_line(2) [OF i] rewritten_line_def q_def)
  have "closed_attributes (q @ ?l)"
    using closed by (simp add: q_def closed_attributes_upstream)
  then have "jslines (uri_proxied ?y) ! i = uri_proxied (q @ ?l)"
    using segments_absolute_line(1) [OF i] y by (simp add: uri_proxied_jslines_closed)
  also have "\<dots> = q @ uri_proxied ?l"
    by (simp add: q_def uri_proxied_upstream)
  finally have out: "jslines (modifiedContent s) ! i =
      rewritten_line ''.mp4'' ''/api/mp4/'' (q @ uri_proxied ?l)"
    by (simp add: modifiedContent_line [OF i])
  have mp4: "suffix ''.mp4'' (uri_proxied ?l) \<longleftrightarrow> suffix ''.mp4'' ?l"
    by (rule suffix_uri_proxied) (simp add: dquote_def)
  show ?thesis
  proof (cases "\<not> absolute_or_comment ?l \<and> suffix ''.ts'' ?l \<and> 3 < length ?l")
    case True
    then have "q = upstream_videos"
      by (simp add: q_def)
    then have "rewritten_line ''.mp4'' ''/api/mp4/'' (q @ uri_proxied ?l) =
        upstream_videos @ uri_proxied ?l"
      by (simp add: rewritten_line_def)
    then show ?thesis
      using True out by simp
  next
    case False
    then have q: "q = []"
      by (auto simp: q_def)
    have "rewritten_line ''.mp4'' ''/api/mp4/'' (uri_proxied ?l) =
        (if \<not> absolute_or_comment ?l \<and> suffix ''.mp4'' ?l \<and> 4 < length ?l then ''/api/mp4/'' else []) @
        uri_proxied ?l"
      unfolding rewritten_line_def
      using mp4 absolute_or_comment_uri_proxied [of ?l] length_uri_proxied [of ?l]
      by (simp add: numeral_eq_Suc)
    moreover have "\<not> 3 < length ?l" if "suffix ''.ts'' ?l" "suffix ''.mp4'' ?l"
      using that ts_not_mp4 by blast
    ultimately show ?thesis
      using False out q ts_not_mp4 [of ?l] by auto
  qed
qed

lemma uri_proxied_unchanged:
  assumes "\<not> sublist uri_open t \<or> \<not> sublist (''.mp4'' @ [dquote]) t"
  shows "uri_proxied t = t"
proof (cases "sublist uri_open t")
  case False
  then show ?thesis
    using uri_proxied_plain [of t "[]"] by simp
next
  case True
  then have "\<not> sublist (''.mp4'' @ [dquote]) t"
    using assms by simp
  then show ?thesis
  proof (induction t)
    case Nil
    then show ?case by simp
  next
    case (Cons c cs)
    have "uri_attribute None (c # cs) = None"
    proof (rule ccontr)
      assume "uri_attribute None (c # cs) \<noteq> None"
      then obtain gn where "uri_attribute None (c # cs) = Some gn"
        by blast
      then obtain g w where g: "c # cs = uri_open @ g @ dquote # w" "suffix ''.mp4'' g"
        using uri_attribute_SomeD by blast
      then obtain g0 where "g = g0 @ ''.mp4''"
        by (auto simp: suffix_def)
      then have "c # cs = (uri_open @ g0) @ (''.mp4'' @ [dquote]) @ w"
        using g(1) by simp
      then have "sublist (''.mp4'' @ [dquote]) (c # cs)"
        unfolding sublist_def by blast
      then show False
        using Cons.prems by simp
    qed
    moreover have "\<not> sublist (''.mp4'' @ [dquote]) cs"
      using Cons.prems by (simp add: sublist_Cons_right)
    ultimately show ?case
      by (simp add: uri_proxied_no_match Cons.IH)
  qed
qed

lemma uri_proxied_before_attribute:
  "uri_proxied (w @ uri_open @ r) = uri_proxied w @ uri_proxied (uri_open @ r)"
  by (rule uri_proxied_append) (rule uri_attribute_before_attribute)

lemma uri_proxied_other_attribute:
  assumes "quote_free g" "\<not> suffix ''URI='' g" "g = ''.mp4'' \<or> \<not> suffix ''.mp4'' g"
  shows "uri_proxied (w @ uri_open @ g @ dquote # v) = uri_proxied w @ uri_open @ g @ dquote # uri_proxied v"
proof -
  have "\<not> (suffix ''.mp4'' g \<and> 4 < length g)"
    using assms(3) by auto
  then have "uri_attribute None (uri_open @ g @ dquote # v) = None"
    using uri_attribute_run [OF assms(1), of "dquote # v" None] by simp
  then have "uri_attribute None (CHR ''U'' # ''RI='' @ dquote # g @ dquote # v) = None"
    by (simp add: uri_open_def)
  then have "uri_proxied (CHR ''U'' # ''RI='' @ dquote # g @ dquote # v) =
      CHR ''U'' # uri_proxied (''RI='' @ dquote # g @ dquote # v)"
    by (rule uri_proxied_no_match)
  moreover have "uri_proxied (''RI='' @ dquote # g @ dquote # v) =
      ''RI='' @ dquote # uri_proxied (g @ dquote # v)"
  proof (rule uri_proxied_tail)
    show "quote_free ''RI=''"
      by (simp add: dquote_def)
    show "\<not> suffix ''URI='' ''RI=''"
      using suffix_length_le [of "''URI=''" "''RI=''"] by auto
  qed
  moreover have "uri_proxied (g @ dquote # v) = g @ dquote # uri_proxied v"
    using assms(1,2) by (rule uri_proxied_tail)
  ultimately have "uri_proxied (uri_open @ g @ dquote # v) = uri_open @ g @ dquote # uri_proxied v"
    by (simp add: uri_open_def)
  then show ?thesis
    by (simp add: uri_proxied_before_attribute)
qed

text \<open>C2: for every manifest text, the rewrite is three steps. The first puts the upstream base in
  front of every line that is neither absolute nor a comment and ends in \<open>.ts\<close> after a non-empty
  stem. The second puts \<open>/api/mp4/\<close> in front of the path of every attribute \<open>URI="path.mp4"\<close> with
  a non-empty path without double quote, wherever it stands; it leaves an attribute alone whose
  value is \<open>.mp4\<close> or does not end in \<open>.mp4\<close>, rewrites what is before and after an attribute as
  it does on their own, and changes nothing in a text without \<open>URI="\<close> or without \<open>.mp4"\<close>. The
  third puts \<open>/api/mp4/\<close> in front of every line that is neither absolute nor a comment and ends
  in \<open>.mp4\<close> after a non-empty stem. For line \<open>i\<close> of the input (lines as the \<open>m\<close> flag sees them),
  when every \<open>URI="\<close> in it is followed by another double quote in the line, as it is in a line
  without \<open>URI="\<close>, line \<open>i\<close> of the result is then: the upstream base, \<open>/api/mp4/\<close> or nothing,
  by the ending of the line (nothing for absolute lines, comments and the lines \<open>.ts\<close> and
  \<open>.mp4\<close>), followed by the line with its attributes rewritten.\<close>

theorem manifest_lines_rewritten:
  fixes m3u8Content :: string and i :: nat
  defines "l \<equiv> jslines m3u8Content ! i"
    and "out \<equiv> jslines (modifiedContent m3u8Content) ! i"
  shows
    "modifiedContent m3u8Content =
       map_lines (rewritten_line ''.mp4'' ''/api/mp4/'')
         (uri_proxied (map_lines (rewritten_line ''.ts'' upstream_videos) m3u8Content)) \<and>
     (quote_free path \<and> path \<noteq> [] \<longrightarrow>
        uri_proxied (w @ uri_open @ path @ ''.mp4'' @ dquote # v) =
          uri_proxied w @ uri_open @ ''/api/mp4/'' @ path @ ''.mp4'' @ dquote # uri_proxied v) \<and>
     (quote_free g \<and> \<not> suffix ''URI='' g \<and> (g = ''.mp4'' \<or> \<not> suffix ''.mp4'' g) \<longrightarrow>
        uri_proxied (w @ uri_open @ g @ dquote # v) =
          uri_proxied w @ uri_open @ g @ dquote # uri_proxied v) \<and>
     (\<not> sublist uri_open t \<or> \<not> sublist (''.mp4'' @ [dquote]) t \<longrightarrow> uri_proxied t = t) \<and>
     (i < length (jslines m3u8Content) \<and> closed_attributes l \<and>
      \<not> absolute_or_comment l \<and> l = stem @ ''.ts'' \<and> stem \<noteq> [] \<longrightarrow>
        out = upstream_videos @ uri_proxied l) \<and>
     (i < length (jslines m3u8Content) \<and> closed_attributes l \<and>
      \<not> absolute_or_comment l \<and> l = stem @ ''.mp4'' \<and> stem \<noteq> [] \<longrightarrow>
        out = ''/api/mp4/'' @ uri_proxied l) \<and>
     (i < length (jslines m3u8Content) \<and> closed_attributes l \<and>
      (absolute_or_comment l \<or> l = ''.ts'' \<or> l = ''.mp4'' \<or>
       \<not> suffix ''.ts'' l \<and> \<not> suffix ''.mp4'' l) \<longrightarrow>
        out = uri_proxied l)"
proof -
  have steps: "modifiedContent m3u8Content =
       map_lines (rewritten_line ''.mp4'' ''/api/mp4/'')
         (uri_proxied (map_lines (rewritten_line ''.ts'' upstream_videos) m3u8Content))"
    by (simp add: modifiedContent_def segments_absolute_lines mp4_proxied_lines)
  have out: "out =
    (if absolute_or_comment l then []
     else if suffix ''.ts'' l \<and> 3 < length l then upstream_videos
     else if suffix ''.mp4'' l \<and> 4 < length l then ''/api/mp4/''
     else []) @ uri_proxied l"
    if "i < length (jslines m3u8Content)" "closed_attributes l"
    using that unfolding l_def out_def by (rule modifiedContent_closed_line)
  have 1: "out = upstream_videos @ uri_proxied l"
    if "i < length (jslines m3u8Content)" "closed_attributes l"
      "\<not> absolute_or_comment l" "l = stem @ ''.ts''" "stem \<noteq> []"
  proof -
    have "suffix ''.ts'' l" "3 < length l"
      using that(4,5) by (simp_all add: suffix_def)
    then show ?thesis
      using out [OF that(1,2)] that(3) by simp
  qed
  have 2: "out = ''/api/mp4/'' @ uri_proxied l"
    if "i < length (jslines m3u8Content)" "closed_attributes l"
      "\<not> absolute_or_comment l" "l = stem @ ''.mp4''" "stem \<noteq> []"
  proof -
    have "suffix ''.mp4'' l" "4 < length l"
      using that(4,5) by (simp_all add: suffix_def)
    then show ?thesis
      using out [OF that(1,2)] that(3) ts_not_mp4 [of l] by auto
  qed
  have 3: "out = uri_proxied l"
    if "i < length (jslines m3u8Content)" "closed_attributes l"
      "absolute_or_comment l \<or> l = ''.ts'' \<or> l = ''.mp4'' \<or>
       \<not> suffix ''.ts'' l \<and> \<not> suffix ''.mp4'' l"
    using out [OF that(1,2)] that(3) ts_not_mp4 [of l] by auto
  have 4: "uri_proxied (w @ uri_open @ path @ ''.mp4'' @ dquote # v) =
      uri_proxied w @ uri_open @ ''/api/mp4/'' @ path @ ''.mp4'' @ dquote # uri_proxied v"
    if "quote_free path" "path \<noteq> []"
  proof -
    have "suffix ''.mp4'' (path @ ''.mp4'')"
      by (rule suffixI) simp
    then have "uri_proxied (w @ uri_open @ (path @ ''.mp4'') @ dquote # v) =
        uri_proxied w @ proxied_uri (path @ ''.mp4'') @ uri_proxied v"
      using that by (intro uri_proxied_attribute) (simp_all add: dquote_def)
    then show ?thesis
      by (simp add: proxied_uri_def uri_open_def)
  qed
  have 5: "uri_proxied (w @ uri_open @ g @ dquote # v) =
      uri_proxied w @ uri_open @ g @ dquote # uri_proxied v"
    if "quote_free g" "\<not> suffix ''URI='' g" "g = ''.mp4'' \<or> \<not> suffix ''.mp4'' g"
    using that by (rule uri_proxied_other_attribute)
  show ?thesis
    using steps 1 2 3 4 5 uri_proxied_unchanged by blast
qed

lemma example_lines:
  "jslines example_manifest =
     [''segment1.ts'',
      ''#EXT-X-MAP:URI='' @ dquote # ''init.mp4'' @ [dquote],
      ''part0.mp4'',
      ''https://cdn.example/seg2.ts'',
      ''#EXT-X-KEY:METHOD=AES-128,URI='' @ dquote # ''key.bin'' @ [dquote],
      ''#EXT-X-PART:URI='' @ dquote # ''a.mp4'' @ dquote # '',URI='' @ dquote # ''b.mp4'' @ [dquote]]"
  by (simp add: example_manifest_def jslines_def split_when.simps isLineTerminator_def dquote_def)

theorem manifest_lines_rewritten_witness:
  "jslines (modifiedContent example_manifest) ! 0 = ''https://barbarian.men/macaw45/videos/segment1.ts'' \<and>
   jslines (modifiedContent example_manifest) ! 1 =
     ''#EXT-X-MAP:URI='' @ dquote # ''/api/mp4/init.mp4'' @ [dquote] \<and>
   jslines (modifiedContent example_manifest) ! 2 = ''/api/mp4/part0.mp4'' \<and>
   jslines (modifiedContent example_manifest) ! 3 = ''https://cdn.example/seg2.ts'' \<and>
   jslines (modifiedContent example_manifest) ! 4 =
     ''#EXT-X-KEY:METHOD=AES-128,URI='' @ dquote # ''key.bin'' @ [dquote] \<and>
   jslines (modifiedContent example_manifest) ! 5 =
     ''#EXT-X-PART:URI='' @ dquote # ''/api/mp4/a.mp4'' @ dquote # '',URI='' @ dquote #
     ''/api/mp4/b.mp4'' @ [dquote]"
  using
    manifest_lines_rewritten [where m3u8Content = example_manifest and i = 0 and
      stem = "''segment1''" and t = "''segment1.ts''"]
    manifest_lines_rewritten [where m3u8Content = example_manifest and i = 1 and
      w = "''#EXT-X-MAP:''" and path = "''init''" and v = "[]" and t = "''#EXT-X-MAP:''"]
    manifest_lines_rewritten [where m3u8Content = example_manifest and i = 2 and
      stem = "''part0''" and t = "''part0.mp4''"]
    manifest_lines_rewritten [where m3u8Content = example_manifest and i = 3 and
      t = "''https://cdn.example/seg2.ts''"]
    manifest_lines_rewritten [where m3u8Content = example_manifest and i = 4 and
      t = "''#EXT-X-KEY:METHOD=AES-128,URI='' @ dquote # ''key.bin'' @ [dquote]"]
    manifest_lines_rewritten [where m3u8Content = example_manifest and i = 5 and
      w = "''#EXT-X-PART:''" and path = "''a''" and
      v = "'',URI='' @ dquote # ''b.mp4'' @ [dquote]" and t = "''#EXT-X-PART:''"]
    manifest_lines_rewritten [where m3u8Content = example_manifest and i = 5 and
      w = "'',''" and path = "''b''" and v = "[]" and t = "'',''"]
  unfolding example_lines
  by (simp add: sublist_Cons_right uri_open_def dquote_def absolute_or_comment_def upstream_videos_def)

text \<open>The line \<open>.ts\<close> is neither absolute nor a comment and ends in \<open>.ts\<close>, and is not rewritten; the
  attribute \<open>URI=".mp4"\<close> is not rewritten either.\<close>

theorem manifest_lines_rewritten_counterexample:
  "\<not> absolute_or_comment ''.ts'' \<and> suffix ''.ts'' ''.ts'' \<and> modifiedContent ''.ts'' = ''.ts'' \<and>
   modifiedContent (''URI='' @ [dquote] @ ''.mp4'' @ [dquote]) = ''URI='' @ [dquote] @ ''.mp4'' @ [dquote]"
  by code_simp

end
